theory Spec2Isabelle
  imports Complex_Main "HOL-Library.Word"
begin

section \<open>The process manager (SKIRT/mpi/ProcessManager.cpp)\<close>

subsection \<open>Process-wide state and constants\<close>

text \<open>
  \<^verbatim>\<open>ProcessManager\<close> keeps two static integers, \<^verbatim>\<open>_size\<close> and \<^verbatim>\<open>_rank\<close>, statically
  initialised to 1 and 0. An Isabelle name cannot start with an underscore, so the fields are
  \<open>pm_size\<close> and \<open>pm_rank\<close>.
\<close>

record ProcessManager =
  pm_size :: int
  pm_rank :: int

definition pm_default :: ProcessManager where
  "pm_default = \<lparr>pm_size = 1, pm_rank = 0\<rparr>"

text \<open>
  Modelled from the spec: the inline queries of ProcessManager.hpp, which is not among the
  sources: \<^verbatim>\<open>isRoot()\<close> is \<^verbatim>\<open>rank == 0\<close> and \<^verbatim>\<open>isMultiProc()\<close> is \<^verbatim>\<open>size > 1\<close>.
\<close>

definition isRoot :: "ProcessManager \<Rightarrow> bool" where
  "isRoot pm = (pm_rank pm = 0)"

definition isMultiProc :: "ProcessManager \<Rightarrow> bool" where
  "isMultiProc pm = (pm_size pm > 1)"

text \<open>
  \<^verbatim>\<open>INT_MAX\<close> is the C library's macro, not defined in the sources: its value where \<^verbatim>\<open>int\<close>
  has 32 bits, as on the platforms the program is built for. The source defines
  \<^verbatim>\<open>const size_t maxMessageSize = INT_MAX - 2;\<close>
\<close>

definition INT_MAX :: nat where
  "INT_MAX = 2147483647"

definition maxMessageSize :: nat where
  "maxMessageSize = INT_MAX - 2"

text \<open>
  The element count is a \<^verbatim>\<open>size_t\<close> at the call site and an \<^verbatim>\<open>int\<close> parameter of the MPI
  function: the implicit conversion keeps the low 32 bits and reads them as two's complement.
\<close>

definition narrow :: "nat \<Rightarrow> int" where
  "narrow n = sint (word_of_nat n :: 32 word)"

subsection \<open>The transport calls a process issues\<close>

text \<open>
  A buffer address is an offset into the caller's array (\<^verbatim>\<open>data\<close> starts at \<^verbatim>\<open>begin(arr)\<close>).
  The send buffer is either \<^verbatim>\<open>MPI_IN_PLACE\<close> or an address. A call records its arguments
  in the order send buffer, receive buffer, count (and root for a reduce); datatype,
  operation and communicator are \<^verbatim>\<open>MPI_DOUBLE\<close>, \<^verbatim>\<open>MPI_SUM\<close> and \<^verbatim>\<open>MPI_COMM_WORLD\<close> in every call.
\<close>

datatype sendbuf = MPI_IN_PLACE | SendAt nat

datatype mpi_call =
    MPI_Allreduce sendbuf nat nat
  | MPI_Reduce sendbuf nat nat int

fun recvbuf :: "mpi_call \<Rightarrow> nat" where
  "recvbuf (MPI_Allreduce s d n) = d"
| "recvbuf (MPI_Reduce s d n r) = d"

fun count :: "mpi_call \<Rightarrow> nat" where
  "count (MPI_Allreduce s d n) = n"
| "count (MPI_Reduce s d n r) = n"

text \<open>The fragment of the array a call reads and writes: first index and length.\<close>

definition fragment :: "mpi_call \<Rightarrow> nat \<times> nat" where
  "fragment c = (recvbuf c, count c)"

text \<open>
  The first element a call reads from: with \<^verbatim>\<open>MPI_IN_PLACE\<close> the input is taken from the
  receive buffer.
\<close>

fun sendbuf_of :: "mpi_call \<Rightarrow> sendbuf" where
  "sendbuf_of (MPI_Allreduce s d n) = s"
| "sendbuf_of (MPI_Reduce s d n r) = s"

definition send_offset :: "mpi_call \<Rightarrow> nat" where
  "send_offset c = (case sendbuf_of c of MPI_IN_PLACE \<Rightarrow> recvbuf c | SendAt a \<Rightarrow> a)"

text \<open>
  Pieces \<open>(first, length)\<close> that follow one another without gap from \<open>a\<close> to \<open>b\<close>: each
  piece starts where the one before it ends.
\<close>

fun tiles :: "nat \<Rightarrow> (nat \<times> nat) list \<Rightarrow> nat \<Rightarrow> bool" where
  "tiles a [] b = (a = b)"
| "tiles a (p # ps) b = (fst p = a \<and> tiles (a + snd p) ps b)"

subsection \<open>sumToAll and sumToRoot\<close>

text \<open>
  The \<^verbatim>\<open>while\<close> loop of \<^verbatim>\<open>sumToAll\<close> with the call that follows it; \<open>data\<close> is the offset
  of the pointer and \<open>remaining\<close> the number of elements still to send. The result is the
  sequence of transport calls issued, first call first.
\<close>

function sumToAll_loop :: "nat \<Rightarrow> nat \<Rightarrow> mpi_call list" where
  "sumToAll_loop data remaining =
     (if remaining > maxMessageSize
      then MPI_Allreduce MPI_IN_PLACE data maxMessageSize
             # sumToAll_loop (data + maxMessageSize) (remaining - maxMessageSize)
      else [MPI_Allreduce MPI_IN_PLACE data remaining])"
  by pat_completeness auto
termination
  by (relation "measure (\<lambda>(data, remaining). remaining)")
     (auto simp: maxMessageSize_def INT_MAX_def)

declare sumToAll_loop.simps [simp del]

text \<open>
  \<open>mpi\<close> is the build flag \<^verbatim>\<open>BUILD_WITH_MPI\<close>: without it the body is empty.
\<close>

definition sumToAll :: "bool \<Rightarrow> ProcessManager \<Rightarrow> 'a list \<Rightarrow> mpi_call list" where
  "sumToAll mpi pm arr =
     (if mpi then (if isMultiProc pm then sumToAll_loop 0 (length arr) else []) else [])"

text \<open>
  The loop of \<^verbatim>\<open>sumToRoot\<close>: the root passes \<^verbatim>\<open>MPI_IN_PLACE\<close> as send buffer, every other
  process passes \<^verbatim>\<open>data\<close> as both send and receive buffer; the root argument is 0.
\<close>

function sumToRoot_loop :: "ProcessManager \<Rightarrow> nat \<Rightarrow> nat \<Rightarrow> mpi_call list" where
  "sumToRoot_loop pm data remaining =
     (if remaining > maxMessageSize
      then (if isRoot pm
            then MPI_Reduce MPI_IN_PLACE data maxMessageSize 0
            else MPI_Reduce (SendAt data) data maxMessageSize 0)
             # sumToRoot_loop pm (data + maxMessageSize) (remaining - maxMessageSize)
      else [if isRoot pm
            then MPI_Reduce MPI_IN_PLACE data remaining 0
            else MPI_Reduce (SendAt data) data remaining 0])"
  by pat_completeness auto
termination
  by (relation "measure (\<lambda>(pm, data, remaining). remaining)")
     (auto simp: maxMessageSize_def INT_MAX_def)

declare sumToRoot_loop.simps [simp del]

text \<open>The call of \<^verbatim>\<open>sumToRoot\<close> on one fragment, by the caller's role.\<close>

definition reduce_call :: "ProcessManager \<Rightarrow> nat \<Rightarrow> nat \<Rightarrow> mpi_call" where
  "reduce_call pm d n =
     (if isRoot pm then MPI_Reduce MPI_IN_PLACE d n 0 else MPI_Reduce (SendAt d) d n 0)"

definition sumToRoot :: "bool \<Rightarrow> ProcessManager \<Rightarrow> 'a list \<Rightarrow> mpi_call list" where
  "sumToRoot mpi pm arr =
     (if mpi then (if isMultiProc pm then sumToRoot_loop pm 0 (length arr) else []) else [])"

subsection \<open>initialize\<close>

text \<open>
  Modelled from the spec: the part of the MPI library (the transport, outside the
  repository) that \<^verbatim>\<open>initialize\<close> talks to: whether MPI has been initialised
  (\<^verbatim>\<open>MPI_Initialized\<close>), the level of thread support the library grants
  (\<^verbatim>\<open>provided\<close> of \<^verbatim>\<open>MPI_Init_thread\<close>), and the size of the world communicator and the
  caller's rank in it (\<^verbatim>\<open>MPI_Comm_size\<close>, \<^verbatim>\<open>MPI_Comm_rank\<close>). The thread levels of MPI are
  the increasing integers \<^verbatim>\<open>MPI_THREAD_SINGLE < MPI_THREAD_FUNNELED < MPI_THREAD_SERIALIZED <
  MPI_THREAD_MULTIPLE\<close>, 0 to 3 in the common implementations.
\<close>

record mpi_env =
  mpi_initialized :: bool
  mpi_provided :: int
  comm_size :: int
  comm_rank :: int

definition MPI_THREAD_SINGLE :: int where
  "MPI_THREAD_SINGLE = 0"

definition MPI_THREAD_FUNNELED :: int where
  "MPI_THREAD_FUNNELED = 1"

datatype error = FatalError string

text \<open>
  \<^verbatim>\<open>initialize\<close> returns the library's state, which keeps what \<^verbatim>\<open>MPI_Init_thread\<close> did also when
  the function throws, and either the error thrown or the process manager's state.
\<close>

definition initialize ::
  "bool \<Rightarrow> mpi_env \<Rightarrow> ProcessManager \<Rightarrow> mpi_env \<times> (error + ProcessManager)" where
  "initialize mpi env pm =
     (if mpi then
        (if \<not> mpi_initialized env then
           (let env' = env\<lparr>mpi_initialized := True\<rparr>;
                provided = mpi_provided env
            in if provided < MPI_THREAD_FUNNELED
               then (env', Inl (FatalError ''MPI implementation does not support funneled threads''))
               else (env', Inr (pm\<lparr>pm_size := comm_size env, pm_rank := comm_rank env\<rparr>)))
         else (env, Inr pm))
      else (env, Inr pm))"

section \<open>The collective transport\<close>

text \<open>
  Modelled from the spec: the collective transport (the MPI library, outside the
  repository), after section 4.2 of the specification and the MPI standard, for a group
  whose state is the list of its participants' arrays in rank order (rank 0 first).

  A transport combines, for every element index of the fragment, the values of all
  participants at that index (the column) into one value: \<open>red\<close>, which is \<^verbatim>\<open>MPI_SUM\<close> over
  the column in rank order when the values are summed exactly. What a reduce-to-root leaves
  in the receive range of a process that is not the root is not specified: \<open>nonroot r i v\<close>
  is the value it leaves at index \<open>i\<close> of rank \<open>r\<close>, where \<open>v\<close> was before the call.
\<close>

record 'a transport =
  red :: "'a list \<Rightarrow> 'a"
  nonroot :: "nat \<Rightarrow> nat \<Rightarrow> 'a \<Rightarrow> 'a"

definition MPI_SUM :: "'a::monoid_add list \<Rightarrow> 'a" where
  "MPI_SUM col = sum_list col"

definition column :: "'a list list \<Rightarrow> nat \<Rightarrow> 'a list" where
  "column bufs i = map (\<lambda>b. b ! i) bufs"

text \<open>
  Modelled from the spec: an all-reduce in place on the elements \<open>off, \<dots>, off + n - 1\<close>:
  every participant's element in the range becomes the reduced column; every other element
  stays.
\<close>

definition allreduce_at :: "'a transport \<Rightarrow> nat \<Rightarrow> nat \<Rightarrow> 'a list list \<Rightarrow> 'a list list" where
  "allreduce_at tr off n bufs =
     map (\<lambda>b. map (\<lambda>i. if off \<le> i \<and> i < off + n then red tr (column bufs i) else b ! i)
                  [0..<length b]) bufs"

text \<open>
  Modelled from the spec: a reduce to rank 0 on the same range: the root's elements in the
  range become the reduced column, the other participants' elements in the range become
  what the transport leaves.
\<close>

definition reduce_at :: "'a transport \<Rightarrow> nat \<Rightarrow> nat \<Rightarrow> 'a list list \<Rightarrow> 'a list list" where
  "reduce_at tr off n bufs =
     map (\<lambda>r. map (\<lambda>i. if off \<le> i \<and> i < off + n
                        then (if r = 0 then red tr (column bufs i)
                              else nonroot tr r i (bufs ! r ! i))
                        else bufs ! r ! i)
                  [0..<length (bufs ! r)]) [0..<length bufs]"

text \<open>
  Modelled from the spec: one collective, from the calls the participants issue at the same
  point, in rank order. It is defined when there is one call per participant; all name the
  same operation, receive offset and count; the count, converted to \<^verbatim>\<open>int\<close>, is not
  negative; the fragment lies inside every participant's array; an all-reduce is in place on
  every rank, and a reduce has root 0, is in place on the root and sends from the receive
  offset elsewhere. These are the shapes \<^verbatim>\<open>sumToAll\<close> and \<^verbatim>\<open>sumToRoot\<close> produce; everything
  else (mismatched shapes are undefined behaviour of the transport) is \<open>None\<close>.
\<close>

fun collective :: "'a transport \<Rightarrow> mpi_call list \<Rightarrow> 'a list list \<Rightarrow> 'a list list option" where
  "collective tr [] bufs = None"
| "collective tr (MPI_Allreduce s d n # cs) bufs =
     (if s = MPI_IN_PLACE \<and> list_all (\<lambda>c. c = MPI_Allreduce MPI_IN_PLACE d n) cs
         \<and> length bufs = Suc (length cs) \<and> 0 \<le> narrow n
         \<and> list_all (\<lambda>b. d + nat (narrow n) \<le> length b) bufs
      then Some (allreduce_at tr d (nat (narrow n)) bufs) else None)"
| "collective tr (MPI_Reduce s d n rt # cs) bufs =
     (if s = MPI_IN_PLACE \<and> rt = 0 \<and> list_all (\<lambda>c. c = MPI_Reduce (SendAt d) d n 0) cs
         \<and> length bufs = Suc (length cs) \<and> 0 \<le> narrow n
         \<and> list_all (\<lambda>b. d + nat (narrow n) \<le> length b) bufs
      then Some (reduce_at tr d (nat (narrow n)) bufs) else None)"

text \<open>Taking the first call off every sequence shortens the sequences: for termination below.\<close>

lemma run_group_measure:
  "\<not> list_ex (\<lambda>t. t = []) traces \<Longrightarrow> traces \<noteq> [] \<Longrightarrow>
   sum_list (map length (map tl traces)) < sum_list (map length traces)"
proof (induction traces)
  case Nil
  then show ?case by simp
next
  case (Cons t ts)
  from Cons.prems have t: "t \<noteq> []" and ts: "\<not> list_ex (\<lambda>t. t = []) ts" by simp_all
  from t have lt: "length (tl t) < length t" by (cases t) simp_all
  show ?case
  proof (cases "ts = []")
    case True
    with lt show ?thesis by simp
  next
    case False
    from Cons.IH [OF ts False] lt show ?thesis by simp
  qed
qed

text \<open>
  Modelled from the spec: every collective is a synchronisation point of the whole group,
  so a group runs its participants' call sequences in lock step: when every sequence is
  finished the group is done; when some are finished and others are not, the others wait
  for ever (\<open>None\<close>); otherwise the first calls of all participants form one collective.
\<close>

function run_group ::
  "'a transport \<Rightarrow> mpi_call list list \<Rightarrow> 'a list list \<Rightarrow> 'a list list option" where
  "run_group tr traces bufs =
     (if list_all (\<lambda>t. t = []) traces then Some bufs
      else if list_ex (\<lambda>t. t = []) traces then None
      else (case collective tr (map hd traces) bufs of
              None \<Rightarrow> None
            | Some bufs' \<Rightarrow> run_group tr (map tl traces) bufs'))"
  by pat_completeness auto
termination
proof (relation "measure (\<lambda>(tr, traces, bufs). sum_list (map length traces))")
  show "wf (measure (\<lambda>(tr, traces, bufs). sum_list (map length traces)))" by simp
next
  fix tr :: "'a transport" and traces :: "mpi_call list list" and bufs bufs' :: "'a list list"
  assume a: "\<not> list_all (\<lambda>t. t = []) traces" and e: "\<not> list_ex (\<lambda>t. t = []) traces"
  from a have "traces \<noteq> []" by auto
  with e have "sum_list (map length (map tl traces)) < sum_list (map length traces)"
    by (rule run_group_measure)
  then show "((tr, map tl traces, bufs'), (tr, traces, bufs))
             \<in> measure (\<lambda>(tr, traces, bufs). sum_list (map length traces))"
    by simp
qed

declare run_group.simps [simp del]

text \<open>
  The process managers of a group of \<open>P\<close> processes after initialisation, and the group
  operations: every participant calls \<^verbatim>\<open>sumToAll\<close> (or \<^verbatim>\<open>sumToRoot\<close>) on its own array, and the
  transport runs the calls they issue. A group of several processes exists in an MPI build
  only, so the build flag is set.
\<close>

definition group_managers :: "nat \<Rightarrow> ProcessManager list" where
  "group_managers P = map (\<lambda>r. \<lparr>pm_size = int P, pm_rank = int r\<rparr>) [0..<P]"

definition sumToAll_group :: "'a transport \<Rightarrow> 'a list list \<Rightarrow> 'a list list option" where
  "sumToAll_group tr bufs =
     run_group tr
       (map (\<lambda>(pm, arr). sumToAll True pm arr) (zip (group_managers (length bufs)) bufs)) bufs"

definition sumToRoot_group :: "'a transport \<Rightarrow> 'a list list \<Rightarrow> 'a list list option" where
  "sumToRoot_group tr bufs =
     run_group tr
       (map (\<lambda>(pm, arr). sumToRoot True pm arr) (zip (group_managers (length bufs)) bufs)) bufs"

section \<open>Work distribution over threads (MultiThreadParallel)\<close>

text \<open>
  Modelled from the spec: \<^verbatim>\<open>MultiThreadParallel.cpp\<close> and the base class \<^verbatim>\<open>MultiParallel\<close> are
  not among the sources; only the header is, which declares \<^verbatim>\<open>call\<close> (the specification's
  \<^verbatim>\<open>dispatch\<close>), \<^verbatim>\<open>doSomeWork\<close> and the data members below. The functions follow section 4.1
  of the specification, steps 1 to 5.
\<close>

text \<open>
  The data members of the header: \<^verbatim>\<open>_chunkSize\<close>, "the number of indices in all but the last
  chunk"; \<^verbatim>\<open>_maxIndex\<close>, "the maximum index (i.e. limiting the last chunk)"; \<^verbatim>\<open>_nextIndex\<close>,
  "the first index of the next available chunk", an atomic counter. Indices are natural
  numbers: the wrap-around of \<^verbatim>\<open>size_t\<close> is not modelled.
\<close>

record MultiThreadParallel =
  chunkSize :: nat
  maxIndex :: nat
  nextIndex :: nat

text \<open>A chunk is the half-open range of \<open>count\<close> indices from \<open>first\<close>, written \<open>(first, count)\<close>.\<close>

type_synonym chunk = "nat \<times> nat"

text \<open>
  Modelled from the spec: the body of \<^verbatim>\<open>doSomeWork\<close>, "the function to do the actual work,
  one chunk at a time", after step 3: one atomic fetch-and-add of the chunk size against the
  cursor claims the chunk from the prior value, clipped to \<open>maxIndex\<close>; when the clipped
  range is empty (the cursor was already at or beyond \<open>maxIndex\<close>) nothing is claimed.
\<close>

definition doSomeWork ::
  "'a MultiThreadParallel_scheme \<Rightarrow> chunk option \<times> 'a MultiThreadParallel_scheme" where
  "doSomeWork s =
     (let firstIndex = nextIndex s;
          s' = s\<lparr>nextIndex := firstIndex + chunkSize s\<rparr>
      in if firstIndex < maxIndex s
         then (Some (firstIndex, min (chunkSize s) (maxIndex s - firstIndex)), s')
         else (None, s'))"

text \<open>
  Modelled from the spec: one dispatch in progress: for every participating thread whether
  it is still claiming, and the chunks the callback has been invoked with, in the order of
  the claims.
\<close>

record dispatch_state = MultiThreadParallel +
  claiming :: "bool list"
  chunks :: "chunk list"

text \<open>
  Modelled from the spec: threads interleave at the fetch-and-add. One step of thread
  \<open>t\<close>: a thread that is still claiming does its next fetch-and-add and either invokes the
  callback with the chunk (step 4) or, on an empty range, stops claiming; a thread that has
  stopped does nothing.
\<close>

definition thread_step :: "nat \<Rightarrow> dispatch_state \<Rightarrow> dispatch_state" where
  "thread_step t s =
     (if t < length (claiming s) \<and> claiming s ! t
      then (case doSomeWork s of
              (Some c, s') \<Rightarrow> s'\<lparr>chunks := chunks s' @ [c]\<rparr>
            | (None, s') \<Rightarrow> s'\<lparr>claiming := (claiming s')[t := False]\<rparr>)
      else s)"

text \<open>Modelled from the spec: a schedule names the thread that takes each next step.\<close>

fun run_threads :: "nat list \<Rightarrow> dispatch_state \<Rightarrow> dispatch_state" where
  "run_threads [] s = s"
| "run_threads (t # ts) s = run_threads ts (thread_step t s)"

text \<open>
  Modelled from the spec: step 2. The chunk size is \<open>maxIndex / (threadCount \<times> K)\<close> for a
  constant \<open>K\<close>, floored at 1; the cursor starts at 0; the worker threads and the calling
  thread all participate.
\<close>

definition dispatch_init :: "nat \<Rightarrow> nat \<Rightarrow> nat \<Rightarrow> dispatch_state" where
  "dispatch_init threadCount K maxIdx =
     \<lparr>chunkSize = max 1 (maxIdx div (threadCount * K)), maxIndex = maxIdx, nextIndex = 0,
      claiming = replicate (Suc threadCount) True, chunks = []\<rparr>"

text \<open>
  Modelled from the spec: \<^verbatim>\<open>dispatch\<close> (the header's \<^verbatim>\<open>call\<close>) under a schedule: with
  \<open>maxIndex = 0\<close> it returns at once and no chunk is claimed (step 1); otherwise it returns,
  with the chunks the callback was invoked with, once every participating thread has stopped
  claiming (step 5). \<open>None\<close>: the schedule ends while some thread is still claiming, and the
  caller is still blocked.
\<close>

definition dispatch :: "nat \<Rightarrow> nat \<Rightarrow> nat \<Rightarrow> nat list \<Rightarrow> chunk list option" where
  "dispatch threadCount K maxIdx sched =
     (if maxIdx = 0 then Some []
      else (let s = run_threads sched (dispatch_init threadCount K maxIdx)
            in if list_all (\<lambda>c. \<not> c) (claiming s) then Some (chunks s) else None))"


subsection \<open>Callbacks that raise\<close>

text \<open>
  Modelled from the spec: the failure semantics of \<^verbatim>\<open>dispatch\<close> (section 4.1, "Failure
  semantics", and the design note on re-raising a worker's error), whose code, in the base
  class \<^verbatim>\<open>MultiParallel\<close>, is not among the sources. The callback \<open>target\<close> either returns
  (\<open>None\<close>) or raises an error (\<open>Some e\<close>) on a chunk.

  A participating thread is about to claim, is running the callback on the chunk it has
  claimed, or has stopped. Each thread has a result slot, empty for success or holding the
  error its callback raised.
\<close>

datatype worker = Claiming | Running chunk | Stopped

record 'e failing_state = MultiThreadParallel +
  workers :: "worker list"
  slots :: "'e option list"
  claimed :: "chunk list"
  completed :: "chunk list"

text \<open>
  Modelled from the spec: one step of thread \<open>t\<close>. About to claim: when some thread has reported an error it stops
  claiming (chunks not yet claimed are abandoned); otherwise it does its fetch-and-add and
  either holds the chunk claimed or, on an empty range, stops. Running a chunk: the callback
  is invoked; when it returns the chunk is reported as executed and the thread goes on to
  claim; when it raises, the error is captured in the thread's slot and the thread stops.
\<close>

definition failing_step ::
  "(chunk \<Rightarrow> 'e option) \<Rightarrow> nat \<Rightarrow> 'e failing_state \<Rightarrow> 'e failing_state" where
  "failing_step target t s =
     (if t < length (workers s) then
        (case workers s ! t of
           Stopped \<Rightarrow> s
         | Claiming \<Rightarrow>
             (if list_ex (\<lambda>r. r \<noteq> None) (slots s)
              then s\<lparr>workers := (workers s)[t := Stopped]\<rparr>
              else (case doSomeWork s of
                      (Some c, s') \<Rightarrow>
                        s'\<lparr>workers := (workers s')[t := Running c], claimed := claimed s' @ [c]\<rparr>
                    | (None, s') \<Rightarrow> s'\<lparr>workers := (workers s')[t := Stopped]\<rparr>))
         | Running c \<Rightarrow>
             (case target c of
                None \<Rightarrow> s\<lparr>workers := (workers s)[t := Claiming], completed := completed s @ [c]\<rparr>
              | Some e \<Rightarrow> s\<lparr>workers := (workers s)[t := Stopped], slots := (slots s)[t := Some e]\<rparr>))
      else s)"

fun run_failing ::
  "(chunk \<Rightarrow> 'e option) \<Rightarrow> nat list \<Rightarrow> 'e failing_state \<Rightarrow> 'e failing_state" where
  "run_failing target [] s = s"
| "run_failing target (t # ts) s = run_failing target ts (failing_step target t s)"

definition failing_init :: "nat \<Rightarrow> nat \<Rightarrow> nat \<Rightarrow> 'e failing_state" where
  "failing_init threadCount K maxIdx =
     \<lparr>chunkSize = max 1 (maxIdx div (threadCount * K)), maxIndex = maxIdx, nextIndex = 0,
      workers = replicate (Suc threadCount) Claiming, slots = replicate (Suc threadCount) None,
      claimed = [], completed = []\<rparr>"

text \<open>
  Modelled from the spec: after the rendezvous the joining thread inspects the slots and
  takes the first error found.
\<close>

fun first_error :: "'e option list \<Rightarrow> 'e option" where
  "first_error [] = None"
| "first_error (None # rs) = first_error rs"
| "first_error (Some e # rs) = Some e"

text \<open>
  Modelled from the spec: \<^verbatim>\<open>dispatch\<close> with a callback that may raise: once every thread has stopped, the caller gets
  the first error found re-raised (\<open>Inl\<close>), or returns normally (\<open>Inr\<close>); with it the model
  gives the chunks that were claimed and those whose callback ran to completion. \<open>None\<close>:
  the schedule ends before every thread has stopped.
\<close>

definition dispatch_failing ::
  "nat \<Rightarrow> nat \<Rightarrow> nat \<Rightarrow> (chunk \<Rightarrow> 'e option) \<Rightarrow> nat list
     \<Rightarrow> (('e + unit) \<times> chunk list \<times> chunk list) option" where
  "dispatch_failing threadCount K maxIdx target sched =
     (if maxIdx = 0 then Some (Inr (), [], [])
      else (let s = run_failing target sched (failing_init threadCount K maxIdx)
            in if list_all (\<lambda>w. w = Stopped) (workers s)
               then Some (case first_error (slots s) of None \<Rightarrow> Inr () | Some e \<Rightarrow> Inl e,
                          claimed s, completed s)
               else None))"


text \<open>What a thread can still do before it stops: a measure that each of its steps lowers.\<close>

definition work_left :: "nat \<Rightarrow> 'e failing_state \<Rightarrow> nat" where
  "work_left t s =
     2 * (maxIndex s - nextIndex s) + (case workers s ! t of Running c \<Rightarrow> 1 | _ \<Rightarrow> 0)"

section \<open>Properties of the fragmentation\<close>

lemma maxMessageSize_pos: "0 < maxMessageSize"
  by (simp add: maxMessageSize_def INT_MAX_def)

lemma fragment_simps [simp]:
  "fragment (MPI_Allreduce s d n) = (d, n)"
  "fragment (MPI_Reduce s d n r) = (d, n)"
  by (simp_all add: fragment_def)

lemma sumToAll_loop_step:
  "remaining > maxMessageSize \<Longrightarrow>
   sumToAll_loop data remaining =
     MPI_Allreduce MPI_IN_PLACE data maxMessageSize
       # sumToAll_loop (data + maxMessageSize) (remaining - maxMessageSize)"
  by (subst sumToAll_loop.simps) simp

lemma sumToAll_loop_last:
  "\<not> remaining > maxMessageSize \<Longrightarrow>
   sumToAll_loop data remaining = [MPI_Allreduce MPI_IN_PLACE data remaining]"
  by (subst sumToAll_loop.simps) simp

lemma sumToRoot_loop_step:
  "remaining > maxMessageSize \<Longrightarrow>
   sumToRoot_loop pm data remaining =
     (if isRoot pm then MPI_Reduce MPI_IN_PLACE data maxMessageSize 0
      else MPI_Reduce (SendAt data) data maxMessageSize 0)
       # sumToRoot_loop pm (data + maxMessageSize) (remaining - maxMessageSize)"
  by (subst sumToRoot_loop.simps) simp

lemma sumToRoot_loop_last:
  "\<not> remaining > maxMessageSize \<Longrightarrow>
   sumToRoot_loop pm data remaining =
     [if isRoot pm then MPI_Reduce MPI_IN_PLACE data remaining 0
      else MPI_Reduce (SendAt data) data remaining 0]"
  by (subst sumToRoot_loop.simps) simp

lemma sumToAll_loop_tiles:
  "tiles data (map fragment (sumToAll_loop data remaining)) (data + remaining)"
proof (induction data remaining rule: sumToAll_loop.induct)
  case (1 data remaining)
  show ?case
  proof (cases "remaining > maxMessageSize")
    case True
    then have e: "data + maxMessageSize + (remaining - maxMessageSize) = data + remaining"
      by simp
    from "1.IH" [OF True] e
    have "tiles (data + maxMessageSize)
            (map fragment (sumToAll_loop (data + maxMessageSize) (remaining - maxMessageSize)))
            (data + remaining)"
      by simp
    with True show ?thesis
      by (simp add: sumToAll_loop_step)
  next
    case False
    then show ?thesis
      by (simp add: sumToAll_loop_last)
  qed
qed

lemma sumToAll_loop_count_le:
  "c \<in> set (sumToAll_loop data remaining) \<Longrightarrow> count c \<le> maxMessageSize"
proof (induction data remaining rule: sumToAll_loop.induct)
  case (1 data remaining)
  show ?case
  proof (cases "remaining > maxMessageSize")
    case True
    with "1.prems" "1.IH" show ?thesis
      by (auto simp: sumToAll_loop_step)
  next
    case False
    with "1.prems" show ?thesis
      by (auto simp: sumToAll_loop_last)
  qed
qed

lemma sumToAll_loop_count_pos:
  "0 < remaining \<Longrightarrow> c \<in> set (sumToAll_loop data remaining) \<Longrightarrow> 0 < count c"
proof (induction data remaining rule: sumToAll_loop.induct)
  case (1 data remaining)
  show ?case
  proof (cases "remaining > maxMessageSize")
    case True
    with "1.prems" "1.IH" maxMessageSize_pos show ?thesis
      by (auto simp: sumToAll_loop_step)
  next
    case False
    with "1.prems" show ?thesis
      by (auto simp: sumToAll_loop_last)
  qed
qed

lemma sumToRoot_loop_fragments:
  "map fragment (sumToRoot_loop pm data remaining) = map fragment (sumToAll_loop data remaining)"
proof (induction pm data remaining rule: sumToRoot_loop.induct)
  case (1 pm data remaining)
  show ?case
  proof (cases "remaining > maxMessageSize")
    case True
    with "1.IH" show ?thesis
      by (simp add: sumToRoot_loop_step sumToAll_loop_step)
  next
    case False
    then show ?thesis
      by (simp add: sumToRoot_loop_last sumToAll_loop_last)
  qed
qed


lemma tiles_end: "tiles a ps b \<Longrightarrow> b = a + sum_list (map snd ps)"
proof (induction ps arbitrary: a)
  case Nil
  then show ?case by simp
next
  case (Cons p ps)
  from Cons.prems have "tiles (a + snd p) ps b" by simp
  from Cons.IH [OF this] show ?case by simp
qed

lemma tiles_concat_slices:
  "tiles a ps b \<Longrightarrow> concat (map (\<lambda>(off, n). take n (drop off xs)) ps) = take (b - a) (drop a xs)"
proof (induction ps arbitrary: a)
  case Nil
  then show ?case by simp
next
  case (Cons p ps)
  obtain off n where p: "p = (off, n)" by (cases p)
  from Cons.prems p have off: "off = a" and t: "tiles (a + n) ps b" by simp_all
  from t have "b = a + n + sum_list (map snd ps)" by (rule tiles_end)
  then have b: "b - a = n + (b - (a + n))" by simp
  have "take (b - a) (drop a xs) = take n (drop a xs) @ take (b - (a + n)) (drop (a + n) xs)"
    by (subst b) (simp add: take_add add.commute)
  moreover from Cons.IH [OF t] have "concat (map (\<lambda>(off, n). take n (drop off xs)) ps) = take (b - (a + n)) (drop (a + n) xs)" .
  ultimately show ?case using p off by simp
qed

lemma tiles_sorted:
  "tiles a ps b \<Longrightarrow> \<forall>p \<in> set ps. 0 < snd p \<Longrightarrow> sorted_wrt (<) (map fst ps) \<and> (\<forall>p \<in> set ps. a \<le> fst p)"
proof (induction ps arbitrary: a)
  case Nil
  then show ?case by simp
next
  case (Cons p ps)
  from Cons.prems have t: "tiles (a + snd p) ps b" and f: "fst p = a" and pos: "0 < snd p"
    and rest: "\<forall>q \<in> set ps. 0 < snd q" by simp_all
  from Cons.IH [OF t rest] have s: "sorted_wrt (<) (map fst ps)" and lb: "\<forall>q \<in> set ps. a + snd p \<le> fst q"
    by simp_all
  from lb pos f have "\<forall>q \<in> set ps. fst p < fst q" by auto
  with s f show ?case by auto
qed

lemma tiles_lower: "tiles a ps b \<Longrightarrow> p \<in> set ps \<Longrightarrow> a \<le> fst p"
proof (induction ps arbitrary: a)
  case Nil
  then show ?case by simp
next
  case (Cons q ps)
  from Cons.prems(1) have q: "fst q = a" and t: "tiles (a + snd q) ps b" by simp_all
  from Cons.prems(2) consider "p = q" | "p \<in> set ps" by auto
  then show ?case
  proof cases
    case 1
    with q show ?thesis by simp
  next
    case 2
    with Cons.IH [OF t] have "a + snd q \<le> fst p" by simp
    then show ?thesis by simp
  qed
qed

lemma tiles_ordered: "tiles a ps b \<Longrightarrow> sorted_wrt (\<lambda>p q. fst p + snd p \<le> fst q) ps"
proof (induction ps arbitrary: a)
  case Nil
  then show ?case by simp
next
  case (Cons p ps)
  from Cons.prems have f: "fst p = a" and t: "tiles (a + snd p) ps b" by simp_all
  from t have "\<forall>q \<in> set ps. a + snd p \<le> fst q" by (blast dest: tiles_lower)
  with f Cons.IH [OF t] show ?case by simp
qed

lemma tiles_once:
  "tiles a ps b \<Longrightarrow> \<forall>p \<in> set ps. 0 < snd p \<Longrightarrow> a \<le> i \<Longrightarrow> i < b \<Longrightarrow>
   length (filter (\<lambda>p. fst p \<le> i \<and> i < fst p + snd p) ps) = 1"
proof (induction ps arbitrary: a)
  case Nil
  then show ?case by simp
next
  case (Cons p ps)
  from Cons.prems have f: "fst p = a" and t: "tiles (a + snd p) ps b"
    and pos: "\<forall>q \<in> set ps. 0 < snd q" by simp_all
  show ?case
  proof (cases "i < a + snd p")
    case True
    from t have "\<forall>q \<in> set ps. a + snd p \<le> fst q" by (blast dest: tiles_lower)
    with True have "filter (\<lambda>q. fst q \<le> i \<and> i < fst q + snd q) ps = []"
      by (auto simp: filter_empty_conv)
    with True f Cons.prems(3) show ?thesis by simp
  next
    case False
    then have "a + snd p \<le> i" by simp
    from Cons.IH [OF t pos this Cons.prems(4)] False f show ?thesis by simp
  qed
qed

lemma ceil_div_step:
  fixes m n :: nat
  assumes "0 < m" "m < n"
  shows "(n + m - 1) div m = Suc ((n - m + m - 1) div m)"
proof -
  from assms have "n + m - 1 = (n - 1) + m" by simp
  then have "(n + m - 1) div m = Suc ((n - 1) div m)"
    using assms(1) by (simp only: div_add_self2)
  moreover from assms have "n - m + m - 1 = n - 1" by simp
  ultimately show ?thesis by (simp only:)
qed

lemma ceil_div_one:
  fixes m n :: nat
  assumes "0 < n" "n \<le> m"
  shows "(n + m - 1) div m = 1"
proof -
  from assms have "n + m - 1 = (n - 1) + m" by simp
  then have "(n + m - 1) div m = Suc ((n - 1) div m)"
    using assms by (simp only: div_add_self2)
  moreover from assms have "(n - 1) div m = 0" by simp
  ultimately show ?thesis by simp
qed

lemma sumToAll_loop_length:
  "0 < remaining \<Longrightarrow>
   length (sumToAll_loop data remaining) = (remaining + maxMessageSize - 1) div maxMessageSize"
proof (induction data remaining rule: sumToAll_loop.induct)
  case (1 data remaining)
  show ?case
  proof (cases "remaining > maxMessageSize")
    case True
    then have pos: "0 < remaining - maxMessageSize" by simp
    have "length (sumToAll_loop data remaining)
          = Suc (length (sumToAll_loop (data + maxMessageSize) (remaining - maxMessageSize)))"
      using True by (simp add: sumToAll_loop_step)
    also have "\<dots> = Suc ((remaining - maxMessageSize + maxMessageSize - 1) div maxMessageSize)"
      using "1.IH" [OF True pos] by (simp only:)
    also have "\<dots> = (remaining + maxMessageSize - 1) div maxMessageSize"
      using maxMessageSize_pos True by (rule ceil_div_step [symmetric])
    finally show ?thesis .
  next
    case False
    then have "remaining \<le> maxMessageSize" by simp
    with "1.prems" have "(remaining + maxMessageSize - 1) div maxMessageSize = 1"
      by (rule ceil_div_one)
    with False show ?thesis by (simp add: sumToAll_loop_last)
  qed
qed

lemma sumToAll_loop_in_place:
  "c \<in> set (sumToAll_loop data remaining) \<Longrightarrow> send_offset c = recvbuf c"
proof (induction data remaining rule: sumToAll_loop.induct)
  case (1 data remaining)
  show ?case
  proof (cases "remaining > maxMessageSize")
    case True
    with "1.prems" "1.IH" show ?thesis
      by (auto simp: sumToAll_loop_step send_offset_def)
  next
    case False
    with "1.prems" show ?thesis
      by (auto simp: sumToAll_loop_last send_offset_def)
  qed
qed

lemma sumToRoot_loop_in_place:
  "c \<in> set (sumToRoot_loop pm data remaining) \<Longrightarrow> send_offset c = recvbuf c"
proof (induction pm data remaining rule: sumToRoot_loop.induct)
  case (1 pm data remaining)
  show ?case
  proof (cases "remaining > maxMessageSize")
    case True
    with "1.prems" "1.IH" show ?thesis
      by (auto simp: sumToRoot_loop_step send_offset_def split: if_splits)
  next
    case False
    with "1.prems" show ?thesis
      by (auto simp: sumToRoot_loop_last send_offset_def split: if_splits)
  qed
qed

lemma fragments_of_calls:
  assumes "isMultiProc pm" and "cs = sumToAll True pm arr \<or> cs = sumToRoot True pm arr"
  shows "map fragment cs = map fragment (sumToAll_loop 0 (length arr))"
  using assms by (auto simp: sumToAll_def sumToRoot_def sumToRoot_loop_fragments)

section \<open>Properties of the group operations\<close>

lemma narrow_id: "n \<le> maxMessageSize \<Longrightarrow> narrow n = int n"
proof -
  assume "n \<le> maxMessageSize"
  then have "n < 2 ^ 31" by (simp add: maxMessageSize_def INT_MAX_def)
  then have "signed_take_bit 31 (int n) = int n"
    by (intro signed_take_bit_int_eq_self) simp_all
  then have "sint (word_of_nat n :: 32 word) = int n"
    by (simp add: signed_of_nat)
  then show ?thesis by (simp add: narrow_def)
qed

lemma allreduce_at_length [simp]: "length (allreduce_at tr off n bufs) = length bufs"
  by (simp add: allreduce_at_def)

lemma allreduce_at_nth_length [simp]:
  "r < length bufs \<Longrightarrow> length (allreduce_at tr off n bufs ! r) = length (bufs ! r)"
  by (simp add: allreduce_at_def)

lemma allreduce_at_nth:
  "r < length bufs \<Longrightarrow> i < length (bufs ! r) \<Longrightarrow>
   allreduce_at tr off n bufs ! r ! i =
     (if off \<le> i \<and> i < off + n then red tr (column bufs i) else bufs ! r ! i)"
  by (simp add: allreduce_at_def)

lemma column_allreduce_at:
  assumes "\<forall>b \<in> set bufs. i < length b" and "\<not> (off \<le> i \<and> i < off + n)"
  shows "column (allreduce_at tr off n bufs) i = column bufs i"
proof -
  have "map (\<lambda>b. b ! i) (allreduce_at tr off n bufs) = map (\<lambda>b. b ! i) bufs"
    unfolding allreduce_at_def map_map
  proof (rule map_cong [OF refl])
    fix b assume "b \<in> set bufs"
    with assms(1) have "i < length b" by blast
    with assms(2) show "((\<lambda>b. b ! i) \<circ> (\<lambda>b. map (\<lambda>i. if off \<le> i \<and> i < off + n then red tr (column bufs i) else b ! i) [0..<length b])) b = b ! i"
      by auto
  qed
  then show ?thesis by (simp add: column_def)
qed

lemma allreduce_at_add:
  assumes len: "\<forall>b \<in> set bufs. d + m + k \<le> length b"
  shows "allreduce_at tr (d + m) k (allreduce_at tr d m bufs) = allreduce_at tr d (m + k) bufs"
proof (rule nth_equalityI)
  show "length (allreduce_at tr (d + m) k (allreduce_at tr d m bufs))
        = length (allreduce_at tr d (m + k) bufs)" by simp
next
  fix r assume "r < length (allreduce_at tr (d + m) k (allreduce_at tr d m bufs))"
  then have r: "r < length bufs" by simp
  show "allreduce_at tr (d + m) k (allreduce_at tr d m bufs) ! r = allreduce_at tr d (m + k) bufs ! r"
  proof (rule nth_equalityI)
    show "length (allreduce_at tr (d + m) k (allreduce_at tr d m bufs) ! r)
          = length (allreduce_at tr d (m + k) bufs ! r)" using r by simp
  next
    fix i assume "i < length (allreduce_at tr (d + m) k (allreduce_at tr d m bufs) ! r)"
    with r have i: "i < length (bufs ! r)" by simp
    show "allreduce_at tr (d + m) k (allreduce_at tr d m bufs) ! r ! i
          = allreduce_at tr d (m + k) bufs ! r ! i"
    proof (cases "d + m \<le> i \<and> i < d + m + k")
      case True
      with len have "\<forall>b \<in> set bufs. i < length b" by auto
      moreover from True have "\<not> (d \<le> i \<and> i < d + m)" by simp
      ultimately have "column (allreduce_at tr d m bufs) i = column bufs i"
        by (rule column_allreduce_at)
      with True r i show ?thesis by (simp add: allreduce_at_nth)
    next
      case False
      with r i show ?thesis by (auto simp: allreduce_at_nth)
    qed
  qed
qed

lemma collective_allreduce:
  assumes P: "length bufs = Suc k" and n: "n \<le> maxMessageSize"
    and len: "\<forall>b \<in> set bufs. d + n \<le> length b"
  shows "collective tr (replicate (Suc k) (MPI_Allreduce MPI_IN_PLACE d n)) bufs
         = Some (allreduce_at tr d n bufs)"
  using assms by (simp add: narrow_id list_all_iff)

lemma allreduce_at_lengths:
  "\<forall>b \<in> set bufs. n \<le> length b \<Longrightarrow> \<forall>b \<in> set (allreduce_at tr off m bufs). n \<le> length b"
  by (auto simp: allreduce_at_def)

lemma run_group_done: "list_all (\<lambda>t. t = []) traces \<Longrightarrow> run_group tr traces bufs = Some bufs"
  by (subst run_group.simps) simp

lemma run_group_allreduce:
  assumes "length bufs = Suc k" and "\<forall>b \<in> set bufs. data + remaining \<le> length b"
  shows "run_group tr (replicate (Suc k) (sumToAll_loop data remaining)) bufs
         = Some (allreduce_at tr data remaining bufs)"
  using assms
proof (induction data remaining arbitrary: bufs rule: sumToAll_loop.induct)
  case (1 data remaining)
  show ?case
  proof (cases "remaining > maxMessageSize")
    case True
    let ?c = "MPI_Allreduce MPI_IN_PLACE data maxMessageSize"
    let ?rest = "sumToAll_loop (data + maxMessageSize) (remaining - maxMessageSize)"
    let ?bufs1 = "allreduce_at tr data maxMessageSize bufs"
    from True have tr: "replicate (Suc k) (sumToAll_loop data remaining) = replicate (Suc k) (?c # ?rest)"
      by (simp add: sumToAll_loop_step)
    from True "1.prems" have len1: "\<forall>b \<in> set bufs. data + maxMessageSize \<le> length b" by auto
    have c: "collective tr (replicate (Suc k) ?c) bufs = Some ?bufs1"
      using "1.prems"(1) _ len1 by (rule collective_allreduce) simp
    from True "1.prems" have len2: "\<forall>b \<in> set bufs. data + maxMessageSize + (remaining - maxMessageSize) \<le> length b"
      by auto
    then have len3: "\<forall>b \<in> set ?bufs1. data + maxMessageSize + (remaining - maxMessageSize) \<le> length b"
      by (rule allreduce_at_lengths)
    have "run_group tr (replicate (Suc k) ?rest) ?bufs1
          = Some (allreduce_at tr (data + maxMessageSize) (remaining - maxMessageSize) ?bufs1)"
      using True _ len3 by (rule "1.IH") (simp add: "1.prems"(1))
    also have "allreduce_at tr (data + maxMessageSize) (remaining - maxMessageSize) ?bufs1
               = allreduce_at tr data (maxMessageSize + (remaining - maxMessageSize)) bufs"
      using len2 by (rule allreduce_at_add)
    also from True have "maxMessageSize + (remaining - maxMessageSize) = remaining" by simp
    finally have rest: "run_group tr (replicate (Suc k) ?rest) ?bufs1
                        = Some (allreduce_at tr data remaining bufs)" .
    have "run_group tr (replicate (Suc k) (?c # ?rest)) bufs
          = run_group tr (replicate (Suc k) ?rest) ?bufs1"
      using c by (subst run_group.simps) (simp add: list_all_iff list_ex_iff)
    with rest tr show ?thesis by simp
  next
    case False
    let ?c = "MPI_Allreduce MPI_IN_PLACE data remaining"
    from False have tr: "replicate (Suc k) (sumToAll_loop data remaining) = replicate (Suc k) [?c]"
      by (simp add: sumToAll_loop_last)
    have c: "collective tr (replicate (Suc k) ?c) bufs = Some (allreduce_at tr data remaining bufs)"
      using "1.prems"(1) _ "1.prems"(2) by (rule collective_allreduce) (use False in simp)
    have "run_group tr (replicate (Suc k) [?c]) bufs
          = run_group tr (replicate (Suc k) []) (allreduce_at tr data remaining bufs)"
      using c by (subst run_group.simps) (simp add: list_all_iff list_ex_iff)
    also have "\<dots> = Some (allreduce_at tr data remaining bufs)"
      by (rule run_group_done) (simp add: list_all_iff)
    finally show ?thesis using tr by simp
  qed
qed

lemma reduce_at_length [simp]: "length (reduce_at tr off n bufs) = length bufs"
  by (simp add: reduce_at_def)

lemma reduce_at_nth_length [simp]:
  "r < length bufs \<Longrightarrow> length (reduce_at tr off n bufs ! r) = length (bufs ! r)"
  by (simp add: reduce_at_def)

lemma reduce_at_nth:
  "r < length bufs \<Longrightarrow> i < length (bufs ! r) \<Longrightarrow>
   reduce_at tr off n bufs ! r ! i =
     (if off \<le> i \<and> i < off + n
      then (if r = 0 then red tr (column bufs i) else nonroot tr r i (bufs ! r ! i))
      else bufs ! r ! i)"
  by (cases r) (auto simp: reduce_at_def)

lemma column_reduce_at:
  assumes "\<forall>b \<in> set bufs. i < length b" and "\<not> (off \<le> i \<and> i < off + n)"
  shows "column (reduce_at tr off n bufs) i = column bufs i"
  unfolding column_def
proof (rule nth_equalityI)
  show "length (map (\<lambda>b. b ! i) (reduce_at tr off n bufs)) = length (map (\<lambda>b. b ! i) bufs)"
    by simp
next
  fix r assume "r < length (map (\<lambda>b. b ! i) (reduce_at tr off n bufs))"
  then have r: "r < length bufs" by simp
  with assms(1) have "i < length (bufs ! r)" by simp
  with r have "reduce_at tr off n bufs ! r ! i =
     (if off \<le> i \<and> i < off + n
      then (if r = 0 then red tr (column bufs i) else nonroot tr r i (bufs ! r ! i))
      else bufs ! r ! i)" by (rule reduce_at_nth)
  with assms(2) have "reduce_at tr off n bufs ! r ! i = bufs ! r ! i" by auto
  with r show "map (\<lambda>b. b ! i) (reduce_at tr off n bufs) ! r = map (\<lambda>b. b ! i) bufs ! r"
    by simp
qed

lemma reduce_at_lengths:
  "\<forall>b \<in> set bufs. n \<le> length b \<Longrightarrow> \<forall>b \<in> set (reduce_at tr off m bufs). n \<le> length b"
  by (auto simp: reduce_at_def)

lemma reduce_at_add:
  assumes len: "\<forall>b \<in> set bufs. d + m + k \<le> length b"
  shows "reduce_at tr (d + m) k (reduce_at tr d m bufs) = reduce_at tr d (m + k) bufs"
proof (rule nth_equalityI)
  show "length (reduce_at tr (d + m) k (reduce_at tr d m bufs))
        = length (reduce_at tr d (m + k) bufs)" by simp
next
  fix r assume "r < length (reduce_at tr (d + m) k (reduce_at tr d m bufs))"
  then have r: "r < length bufs" by simp
  show "reduce_at tr (d + m) k (reduce_at tr d m bufs) ! r = reduce_at tr d (m + k) bufs ! r"
  proof (rule nth_equalityI)
    show "length (reduce_at tr (d + m) k (reduce_at tr d m bufs) ! r)
          = length (reduce_at tr d (m + k) bufs ! r)" using r by simp
  next
    fix i assume "i < length (reduce_at tr (d + m) k (reduce_at tr d m bufs) ! r)"
    with r have i: "i < length (bufs ! r)" by simp
    show "reduce_at tr (d + m) k (reduce_at tr d m bufs) ! r ! i
          = reduce_at tr d (m + k) bufs ! r ! i"
    proof (cases "d + m \<le> i \<and> i < d + m + k")
      case True
      with len have "\<forall>b \<in> set bufs. i < length b" by auto
      moreover from True have "\<not> (d \<le> i \<and> i < d + m)" by simp
      ultimately have "column (reduce_at tr d m bufs) i = column bufs i"
        by (rule column_reduce_at)
      with True r i show ?thesis by (simp add: reduce_at_nth)
    next
      case False
      with r i show ?thesis by (auto simp: reduce_at_nth)
    qed
  qed
qed

lemma collective_reduce:
  assumes P: "length bufs = Suc (length rest)" and n: "n \<le> maxMessageSize"
    and len: "\<forall>b \<in> set bufs. d + n \<le> length b"
    and root: "isRoot pm0" and others: "\<forall>pm \<in> set rest. \<not> isRoot pm"
  shows "collective tr (map (\<lambda>pm. reduce_call pm d n) (pm0 # rest)) bufs
         = Some (reduce_at tr d n bufs)"
  using assms by (simp add: narrow_id list_all_iff reduce_call_def)

lemma run_group_reduce:
  assumes "length bufs = Suc (length rest)" and "\<forall>b \<in> set bufs. data + remaining \<le> length b"
    and root: "isRoot pm0" and others: "\<forall>pm \<in> set rest. \<not> isRoot pm"
  shows "run_group tr (map (\<lambda>pm. sumToRoot_loop pm data remaining) (pm0 # rest)) bufs
         = Some (reduce_at tr data remaining bufs)"
  using assms(1,2)
proof (induction data remaining arbitrary: bufs rule: sumToAll_loop.induct)
  case (1 data remaining)
  show ?case
  proof (cases "remaining > maxMessageSize")
    case True
    let ?d' = "data + maxMessageSize" and ?r' = "remaining - maxMessageSize"
    let ?bufs1 = "reduce_at tr data maxMessageSize bufs"
    from True have tr: "map (\<lambda>pm. sumToRoot_loop pm data remaining) (pm0 # rest)
                        = map (\<lambda>pm. reduce_call pm data maxMessageSize # sumToRoot_loop pm ?d' ?r') (pm0 # rest)"
      by (simp add: sumToRoot_loop_step reduce_call_def)
    from True "1.prems" have len1: "\<forall>b \<in> set bufs. data + maxMessageSize \<le> length b" by auto
    have c: "collective tr (map (\<lambda>pm. reduce_call pm data maxMessageSize) (pm0 # rest)) bufs = Some ?bufs1"
      using "1.prems"(1) _ len1 root others by (rule collective_reduce) simp
    from True "1.prems" have len2: "\<forall>b \<in> set bufs. data + maxMessageSize + ?r' \<le> length b"
      by auto
    then have len3: "\<forall>b \<in> set ?bufs1. data + maxMessageSize + ?r' \<le> length b"
      by (rule reduce_at_lengths)
    have "run_group tr (map (\<lambda>pm. sumToRoot_loop pm ?d' ?r') (pm0 # rest)) ?bufs1
          = Some (reduce_at tr ?d' ?r' ?bufs1)"
      using True _ len3 by (rule "1.IH") (simp add: "1.prems"(1))
    also have "reduce_at tr ?d' ?r' ?bufs1 = reduce_at tr data (maxMessageSize + ?r') bufs"
      using len2 by (rule reduce_at_add)
    also from True have "maxMessageSize + ?r' = remaining" by simp
    finally have rest: "run_group tr (map (\<lambda>pm. sumToRoot_loop pm ?d' ?r') (pm0 # rest)) ?bufs1
                        = Some (reduce_at tr data remaining bufs)" .
    have step: "run_group tr (map (\<lambda>pm. reduce_call pm data maxMessageSize # sumToRoot_loop pm ?d' ?r') (pm0 # rest)) bufs
          = run_group tr (map (\<lambda>pm. sumToRoot_loop pm ?d' ?r') (pm0 # rest)) ?bufs1"
      using c by (subst run_group.simps) (auto simp: list_all_iff list_ex_iff comp_def)
    show ?thesis by (simp only: tr step rest)
  next
    case False
    from False have tr: "map (\<lambda>pm. sumToRoot_loop pm data remaining) (pm0 # rest)
                         = map (\<lambda>pm. [reduce_call pm data remaining]) (pm0 # rest)"
      by (simp add: sumToRoot_loop_last reduce_call_def)
    have c: "collective tr (map (\<lambda>pm. reduce_call pm data remaining) (pm0 # rest)) bufs
             = Some (reduce_at tr data remaining bufs)"
      using "1.prems"(1) _ "1.prems"(2) root others by (rule collective_reduce) (use False in simp)
    have fin: "run_group tr (map (\<lambda>pm. [reduce_call pm data remaining]) (pm0 # rest)) bufs
          = run_group tr (map (\<lambda>pm. []) (pm0 # rest)) (reduce_at tr data remaining bufs)"
      using c by (subst run_group.simps) (auto simp: list_all_iff list_ex_iff comp_def)
    also have "\<dots> = Some (reduce_at tr data remaining bufs)"
      by (rule run_group_done) (simp add: list_all_iff)
    finally have last: "run_group tr (map (\<lambda>pm. [reduce_call pm data remaining]) (pm0 # rest)) bufs
                        = Some (reduce_at tr data remaining bufs)" .
    show ?thesis by (simp only: tr last)
  qed
qed

lemma length_group_managers [simp]: "length (group_managers P) = P"
  by (simp add: group_managers_def)

lemma group_managers_size: "pm \<in> set (group_managers P) \<Longrightarrow> pm_size pm = int P"
  by (auto simp: group_managers_def)

lemma group_managers_Suc:
  "group_managers (Suc k) =
     \<lparr>pm_size = int (Suc k), pm_rank = 0\<rparr>
       # map (\<lambda>r. \<lparr>pm_size = int (Suc k), pm_rank = int r\<rparr>) [Suc 0..<Suc k]"
  by (simp add: group_managers_def upt_conv_Cons del: upt_Suc)

lemma sumToAll_traces:
  assumes "2 \<le> length bufs" and "\<forall>b \<in> set bufs. length b = L"
  shows "map (\<lambda>(pm, arr). sumToAll True pm arr) (zip (group_managers (length bufs)) bufs)
         = replicate (length bufs) (sumToAll_loop 0 L)"
proof -
  have "map (\<lambda>(pm, arr). sumToAll True pm arr) (zip (group_managers (length bufs)) bufs)
        = map (\<lambda>p. sumToAll_loop 0 L) (zip (group_managers (length bufs)) bufs)"
  proof (rule map_cong [OF refl])
    fix p assume p: "p \<in> set (zip (group_managers (length bufs)) bufs)"
    obtain pm arr where pa: "p = (pm, arr)" by (cases p)
    with p have "pm \<in> set (group_managers (length bufs))" and "arr \<in> set bufs"
      by (auto dest: set_zip_leftD set_zip_rightD)
    with assms have "isMultiProc pm" and "length arr = L"
      by (auto simp: isMultiProc_def dest: group_managers_size)
    with pa show "(case p of (pm, arr) \<Rightarrow> sumToAll True pm arr) = sumToAll_loop 0 L"
      by (simp add: sumToAll_def)
  qed
  then show ?thesis by (simp add: map_replicate_const)
qed

lemma sumToRoot_traces:
  assumes "2 \<le> length bufs" and "\<forall>b \<in> set bufs. length b = L"
  shows "map (\<lambda>(pm, arr). sumToRoot True pm arr) (zip (group_managers (length bufs)) bufs)
         = map (\<lambda>pm. sumToRoot_loop pm 0 L) (group_managers (length bufs))"
proof -
  have "map (\<lambda>(pm, arr). sumToRoot True pm arr) (zip (group_managers (length bufs)) bufs)
        = map ((\<lambda>pm. sumToRoot_loop pm 0 L) \<circ> fst) (zip (group_managers (length bufs)) bufs)"
  proof (rule map_cong [OF refl])
    fix p assume p: "p \<in> set (zip (group_managers (length bufs)) bufs)"
    obtain pm arr where pa: "p = (pm, arr)" by (cases p)
    with p have "pm \<in> set (group_managers (length bufs))" and "arr \<in> set bufs"
      by (auto dest: set_zip_leftD set_zip_rightD)
    with assms have "isMultiProc pm" and "length arr = L"
      by (auto simp: isMultiProc_def dest: group_managers_size)
    with pa show "(case p of (pm, arr) \<Rightarrow> sumToRoot True pm arr)
                  = ((\<lambda>pm. sumToRoot_loop pm 0 L) \<circ> fst) p"
      by (simp add: sumToRoot_def)
  qed
  also have "\<dots> = map (\<lambda>pm. sumToRoot_loop pm 0 L) (map fst (zip (group_managers (length bufs)) bufs))"
    by (simp only: map_map)
  also have "map fst (zip (group_managers (length bufs)) bufs) = group_managers (length bufs)"
    by (rule map_fst_zip) simp
  finally show ?thesis .
qed

lemma sumToAll_group_multi:
  assumes "2 \<le> length bufs" and len: "\<forall>b \<in> set bufs. length b = L"
  shows "sumToAll_group tr bufs = Some (allreduce_at tr 0 L bufs)"
proof -
  from assms(1) obtain k where k: "length bufs = Suc k" by (cases "length bufs") simp_all
  from len have "\<forall>b \<in> set bufs. 0 + L \<le> length b" by simp
  with k have "run_group tr (replicate (Suc k) (sumToAll_loop 0 L)) bufs = Some (allreduce_at tr 0 L bufs)"
    by (rule run_group_allreduce)
  then have "run_group tr (replicate (length bufs) (sumToAll_loop 0 L)) bufs = Some (allreduce_at tr 0 L bufs)"
    by (simp only: k)
  then show ?thesis
    unfolding sumToAll_group_def sumToAll_traces [OF assms] .
qed

lemma sumToRoot_group_multi:
  assumes "2 \<le> length bufs" and len: "\<forall>b \<in> set bufs. length b = L"
  shows "sumToRoot_group tr bufs = Some (reduce_at tr 0 L bufs)"
proof -
  from assms(1) obtain k where k: "length bufs = Suc k" by (cases "length bufs") simp_all
  let ?pm0 = "\<lparr>pm_size = int (Suc k), pm_rank = 0\<rparr>"
  let ?rest = "map (\<lambda>r. \<lparr>pm_size = int (Suc k), pm_rank = int r\<rparr>) [Suc 0..<Suc k]"
  have gm: "group_managers (length bufs) = ?pm0 # ?rest"
    by (simp only: k group_managers_Suc)
  have "run_group tr (map (\<lambda>pm. sumToRoot_loop pm 0 L) (?pm0 # ?rest)) bufs
        = Some (reduce_at tr 0 L bufs)"
  proof (rule run_group_reduce)
    show "length bufs = Suc (length ?rest)" using k by simp
    show "\<forall>b \<in> set bufs. 0 + L \<le> length b" using len by simp
    show "isRoot ?pm0" by (simp add: isRoot_def)
    show "\<forall>pm \<in> set ?rest. \<not> isRoot pm" by (auto simp: isRoot_def)
  qed
  then have "run_group tr (map (\<lambda>pm. sumToRoot_loop pm 0 L) (group_managers (length bufs))) bufs
        = Some (reduce_at tr 0 L bufs)"
    by (simp only: gm)
  then show ?thesis
    unfolding sumToRoot_group_def sumToRoot_traces [OF assms] .
qed

lemma sumToAll_group_single: "sumToAll_group tr [arr] = Some [arr]"
proof -
  have "map (\<lambda>(pm, arr). sumToAll True pm arr) (zip (group_managers (length [arr])) [arr]) = [[]]"
    by (simp add: group_managers_def sumToAll_def isMultiProc_def)
  moreover have "run_group tr [[]] [arr] = Some [arr]"
    by (rule run_group_done) simp
  ultimately show ?thesis by (simp only: sumToAll_group_def)
qed

lemma sumToRoot_group_single: "sumToRoot_group tr [arr] = Some [arr]"
proof -
  have "map (\<lambda>(pm, arr). sumToRoot True pm arr) (zip (group_managers (length [arr])) [arr]) = [[]]"
    by (simp add: group_managers_def sumToRoot_def isMultiProc_def)
  moreover have "run_group tr [[]] [arr] = Some [arr]"
    by (rule run_group_done) simp
  ultimately show ?thesis by (simp only: sumToRoot_group_def)
qed

lemma allreduce_at_single:
  assumes "\<forall>x. red tr [x] = x"
  shows "allreduce_at tr off n [b] = [b]"
proof -
  have "map (\<lambda>i. if off \<le> i \<and> i < off + n then red tr (column [b] i) else b ! i) [0..<length b]
        = map (\<lambda>i. b ! i) [0..<length b]"
    using assms by (simp add: column_def)
  then show ?thesis by (simp add: allreduce_at_def map_nth)
qed

lemma reduce_at_single:
  assumes "\<forall>x. red tr [x] = x"
  shows "reduce_at tr off n [b] = [b]"
proof -
  have "reduce_at tr off n [b] = [map (\<lambda>i. b ! i) [0..<length b]]"
    using assms by (simp add: reduce_at_def column_def)
  then show ?thesis by (simp only: map_nth)
qed

section \<open>Properties of the work distribution\<close>





lemma thread_step_frame:
  "chunkSize (thread_step t s) = chunkSize s \<and> maxIndex (thread_step t s) = maxIndex s
   \<and> length (claiming (thread_step t s)) = length (claiming s)"
  by (simp add: thread_step_def doSomeWork_def Let_def split: prod.splits option.splits if_splits)


lemma run_threads_frame:
  "chunkSize (run_threads sched s) = chunkSize s \<and> maxIndex (run_threads sched s) = maxIndex s
   \<and> length (claiming (run_threads sched s)) = length (claiming s)"
  by (induction sched arbitrary: s) (simp_all add: thread_step_frame)


lemma run_threads_append: "run_threads (a @ b) s = run_threads b (run_threads a s)"
  by (induction a arbitrary: s) simp_all

lemma thread_step_stopped:
  "u < length (claiming s) \<Longrightarrow> \<not> claiming s ! u \<Longrightarrow> \<not> claiming (thread_step t s) ! u"
  by (auto simp: thread_step_def doSomeWork_def Let_def nth_list_update)

lemma run_threads_stopped:
  "u < length (claiming s) \<Longrightarrow> \<not> claiming s ! u \<Longrightarrow> \<not> claiming (run_threads sched s) ! u"
proof (induction sched arbitrary: s)
  case Nil
  then show ?case by simp
next
  case (Cons t ts)
  from Cons.prems have "u < length (claiming (thread_step t s))"
    and "\<not> claiming (thread_step t s) ! u"
    by (simp_all add: thread_step_frame thread_step_stopped)
  then show ?case by (simp add: Cons.IH)
qed

lemma thread_finishes:
  assumes "0 < chunkSize s" and "t < length (claiming s)"
  shows "\<exists>k. \<not> claiming (run_threads (replicate k t) s) ! t"
  using assms
proof (induction "maxIndex s - nextIndex s" arbitrary: s rule: less_induct)
  case less
  show ?case
  proof (cases "claiming s ! t")
    case False
    then have "\<not> claiming (run_threads (replicate 0 t) s) ! t" by simp
    then show ?thesis by blast
  next
    case True
    show ?thesis
    proof (cases "nextIndex s < maxIndex s")
      case stop: False
      with True less.prems have "\<not> claiming (thread_step t s) ! t"
        by (simp add: thread_step_def doSomeWork_def Let_def)
      then have "\<not> claiming (run_threads (replicate 1 t) s) ! t" by simp
      then show ?thesis by blast
    next
      case claim: True
      let ?s' = "thread_step t s"
      from True claim less.prems
      have n: "nextIndex ?s' = nextIndex s + chunkSize s"
        by (simp add: thread_step_def doSomeWork_def Let_def)
      have fr: "chunkSize ?s' = chunkSize s" "maxIndex ?s' = maxIndex s"
        "length (claiming ?s') = length (claiming s)"
        using thread_step_frame [of t s] by simp_all
      from n fr claim less.prems have "maxIndex ?s' - nextIndex ?s' < maxIndex s - nextIndex s"
        by simp
      moreover from fr less.prems have "0 < chunkSize ?s'" "t < length (claiming ?s')" by simp_all
      ultimately obtain k where "\<not> claiming (run_threads (replicate k t) ?s') ! t"
        using less.hyps by blast
      then have "\<not> claiming (run_threads (replicate (Suc k) t) s) ! t" by simp
      then show ?thesis by blast
    qed
  qed
qed

lemma threads_finish:
  assumes "0 < chunkSize s" and "n \<le> length (claiming s)"
  shows "\<exists>sched. \<forall>u < n. \<not> claiming (run_threads sched s) ! u"
  using assms(2)
proof (induction n)
  case 0
  then show ?case by simp
next
  case (Suc n)
  then obtain sched where sched: "\<forall>u < n. \<not> claiming (run_threads sched s) ! u" by auto
  let ?s1 = "run_threads sched s"
  have fr: "chunkSize ?s1 = chunkSize s" "length (claiming ?s1) = length (claiming s)"
    using run_threads_frame [of sched s] by simp_all
  with assms(1) Suc.prems have "0 < chunkSize ?s1" and n: "n < length (claiming ?s1)" by simp_all
  then obtain k where k: "\<not> claiming (run_threads (replicate k n) ?s1) ! n"
    using thread_finishes by blast
  have "\<forall>u < Suc n. \<not> claiming (run_threads (sched @ replicate k n) s) ! u"
  proof (intro allI impI)
    fix u assume "u < Suc n"
    then consider "u < n" | "u = n" by linarith
    then show "\<not> claiming (run_threads (sched @ replicate k n) s) ! u"
    proof cases
      case 1
      with sched n have "u < length (claiming ?s1)" and "\<not> claiming ?s1 ! u" by simp_all
      then have "\<not> claiming (run_threads (replicate k n) ?s1) ! u" by (rule run_threads_stopped)
      then show ?thesis by (simp add: run_threads_append)
    next
      case 2
      with k show ?thesis by (simp add: run_threads_append)
    qed
  qed
  then show ?case by blast
qed

lemma dispatch_returns: "\<exists>sched cs. dispatch threadCount K maxIdx sched = Some cs"
proof (cases "maxIdx = 0")
  case True
  then show ?thesis by (simp add: dispatch_def)
next
  case False
  let ?s0 = "dispatch_init threadCount K maxIdx"
  have "0 < chunkSize ?s0" and "Suc threadCount \<le> length (claiming ?s0)"
    by (simp_all add: dispatch_init_def)
  then obtain sched where sched: "\<forall>u < Suc threadCount. \<not> claiming (run_threads sched ?s0) ! u"
    using threads_finish by blast
  have "length (claiming (run_threads sched ?s0)) = Suc threadCount"
    using run_threads_frame [of sched ?s0] by (simp add: dispatch_init_def)
  with sched have "list_all (\<lambda>c. \<not> c) (claiming (run_threads sched ?s0))"
    by (simp add: list_all_length)
  with False have "dispatch threadCount K maxIdx sched = Some (chunks (run_threads sched ?s0))"
    by (simp add: dispatch_def Let_def)
  then show ?thesis by blast
qed











lemma run_failing_append:
  "run_failing target (a @ b) s = run_failing target b (run_failing target a s)"
  by (induction a arbitrary: s) simp_all

lemma failing_step_frame:
  "chunkSize (failing_step target t s) = chunkSize s
   \<and> maxIndex (failing_step target t s) = maxIndex s
   \<and> length (workers (failing_step target t s)) = length (workers s)"
  by (simp add: failing_step_def doSomeWork_def Let_def
           split: worker.splits option.splits if_splits)

lemma run_failing_frame:
  "chunkSize (run_failing target sched s) = chunkSize s
   \<and> maxIndex (run_failing target sched s) = maxIndex s
   \<and> length (workers (run_failing target sched s)) = length (workers s)"
  by (induction sched arbitrary: s) (simp_all add: failing_step_frame)

lemma failing_step_stopped:
  "u < length (workers s) \<Longrightarrow> workers s ! u = Stopped
   \<Longrightarrow> workers (failing_step target t s) ! u = Stopped"
  by (cases "u = t")
     (auto simp: failing_step_def doSomeWork_def Let_def split: worker.splits option.splits)

lemma run_failing_stopped:
  "u < length (workers s) \<Longrightarrow> workers s ! u = Stopped
   \<Longrightarrow> workers (run_failing target sched s) ! u = Stopped"
proof (induction sched arbitrary: s)
  case Nil
  then show ?case by simp
next
  case (Cons t ts)
  from Cons.prems have "u < length (workers (failing_step target t s))"
    and "workers (failing_step target t s) ! u = Stopped"
    by (simp_all add: failing_step_frame failing_step_stopped)
  then show ?case by (simp add: Cons.IH)
qed

lemma failing_step_progress:
  assumes "0 < chunkSize s" and "t < length (workers s)" and "workers s ! t \<noteq> Stopped"
  shows "workers (failing_step target t s) ! t = Stopped
         \<or> work_left t (failing_step target t s) < work_left t s"
proof (cases "workers s ! t")
  case Stopped
  with assms show ?thesis by simp
next
  case (Running c)
  with assms(2) show ?thesis
    by (cases "target c") (simp_all add: failing_step_def work_left_def)
next
  case Claiming
  show ?thesis
  proof (cases "list_ex (\<lambda>r. r \<noteq> None) (slots s) \<or> \<not> nextIndex s < maxIndex s")
    case True
    with Claiming assms(2) have "workers (failing_step target t s) ! t = Stopped"
      by (auto simp: failing_step_def doSomeWork_def Let_def)
    then show ?thesis by simp
  next
    case False
    then have "Suc (2 * (maxIndex s - (nextIndex s + chunkSize s))) < 2 * (maxIndex s - nextIndex s)"
      using assms(1) by linarith
    with False Claiming assms(1,2)
    have "work_left t (failing_step target t s) < work_left t s"
      by (simp add: failing_step_def doSomeWork_def Let_def work_left_def)
    then show ?thesis by simp
  qed
qed

lemma failing_thread_finishes:
  assumes "0 < chunkSize s" and "t < length (workers s)"
  shows "\<exists>k. workers (run_failing target (replicate k t) s) ! t = Stopped"
  using assms
proof (induction "work_left t s" arbitrary: s rule: less_induct)
  case less
  show ?case
  proof (cases "workers s ! t = Stopped")
    case True
    then have "workers (run_failing target (replicate 0 t) s) ! t = Stopped" by simp
    then show ?thesis by blast
  next
    case False
    let ?s' = "failing_step target t s"
    from failing_step_progress [OF less.prems False, of target]
    consider "workers ?s' ! t = Stopped" | "work_left t ?s' < work_left t s" by blast
    then show ?thesis
    proof cases
      case 1
      then have "workers (run_failing target (replicate 1 t) s) ! t = Stopped" by simp
      then show ?thesis by blast
    next
      case 2
      have "0 < chunkSize ?s'" and "t < length (workers ?s')"
        using less.prems failing_step_frame [of target t s] by simp_all
      with 2 obtain k where "workers (run_failing target (replicate k t) ?s') ! t = Stopped"
        using less.hyps by blast
      then have "workers (run_failing target (replicate (Suc k) t) s) ! t = Stopped" by simp
      then show ?thesis by blast
    qed
  qed
qed

lemma failing_threads_finish:
  assumes "0 < chunkSize s" and "n \<le> length (workers s)"
  shows "\<exists>sched. \<forall>u < n. workers (run_failing target sched s) ! u = Stopped"
  using assms(2)
proof (induction n)
  case 0
  then show ?case by simp
next
  case (Suc n)
  then obtain sched where sched: "\<forall>u < n. workers (run_failing target sched s) ! u = Stopped"
    by auto
  let ?s1 = "run_failing target sched s"
  have fr: "chunkSize ?s1 = chunkSize s" "length (workers ?s1) = length (workers s)"
    using run_failing_frame [of target sched s] by simp_all
  with assms(1) Suc.prems have "0 < chunkSize ?s1" and n: "n < length (workers ?s1)" by simp_all
  then obtain k where k: "workers (run_failing target (replicate k n) ?s1) ! n = Stopped"
    using failing_thread_finishes by blast
  have "\<forall>u < Suc n. workers (run_failing target (sched @ replicate k n) s) ! u = Stopped"
  proof (intro allI impI)
    fix u assume "u < Suc n"
    then consider "u < n" | "u = n" by linarith
    then show "workers (run_failing target (sched @ replicate k n) s) ! u = Stopped"
    proof cases
      case 1
      with sched n have "u < length (workers ?s1)" and "workers ?s1 ! u = Stopped" by simp_all
      then have "workers (run_failing target (replicate k n) ?s1) ! u = Stopped"
        by (rule run_failing_stopped)
      then show ?thesis by (simp add: run_failing_append)
    next
      case 2
      with k show ?thesis by (simp add: run_failing_append)
    qed
  qed
  then show ?case by blast
qed

lemma dispatch_failing_returns:
  "\<exists>sched res. dispatch_failing threadCount K maxIdx target sched = Some res"
proof (cases "maxIdx = 0")
  case True
  then show ?thesis by (simp add: dispatch_failing_def)
next
  case False
  let ?s0 = "failing_init threadCount K maxIdx :: 'a failing_state"
  have "0 < chunkSize ?s0" and "Suc threadCount \<le> length (workers ?s0)"
    by (simp_all add: failing_init_def)
  then obtain sched
    where sched: "\<forall>u < Suc threadCount. workers (run_failing target sched ?s0) ! u = Stopped"
    using failing_threads_finish by blast
  have "length (workers (run_failing target sched ?s0)) = Suc threadCount"
    using run_failing_frame [of target sched ?s0] by (simp add: failing_init_def)
  with sched have "list_all (\<lambda>w. w = Stopped) (workers (run_failing target sched ?s0))"
    by (simp add: list_all_length)
  with False have "\<exists>res. dispatch_failing threadCount K maxIdx target sched = Some res"
    by (simp add: dispatch_failing_def Let_def)
  then show ?thesis by blast
qed

section \<open>The claims about the process manager\<close>

text \<open>
  C9. Every element count that \<^verbatim>\<open>sumToAll\<close> or \<^verbatim>\<open>sumToRoot\<close> passes to the transport is at
  most \<^verbatim>\<open>INT_MAX - 2\<close>; the conversion of the \<^verbatim>\<open>size_t\<close> count to the transport's \<^verbatim>\<open>int\<close>
  parameter therefore keeps its value, which is not negative and is below \<^verbatim>\<open>INT_MAX\<close>.
\<close>

theorem count_fits_int:
  assumes "c \<in> set (sumToAll mpi pm arr) \<or> c \<in> set (sumToRoot mpi pm arr)"
  shows "count c \<le> INT_MAX - 2 \<and> narrow (count c) = int (count c)
         \<and> 0 \<le> narrow (count c) \<and> narrow (count c) < int INT_MAX"
proof -
  have "count c \<le> maxMessageSize"
  proof -
    from assms consider "c \<in> set (sumToAll_loop 0 (length arr))"
      | "c \<in> set (sumToRoot_loop pm 0 (length arr))"
      by (auto simp: sumToAll_def sumToRoot_def split: if_splits)
    then show ?thesis
    proof cases
      case 1
      then show ?thesis by (rule sumToAll_loop_count_le)
    next
      case 2
      then have "fragment c \<in> set (map fragment (sumToRoot_loop pm 0 (length arr)))"
        by simp
      then have "fragment c \<in> set (map fragment (sumToAll_loop 0 (length arr)))"
        by (simp only: sumToRoot_loop_fragments)
      then obtain c' where c': "c' \<in> set (sumToAll_loop 0 (length arr))" and "fragment c' = fragment c"
        by auto
      then have "count c' = count c" by (simp add: fragment_def)
      with sumToAll_loop_count_le [OF c'] show ?thesis by simp
    qed
  qed
  then show ?thesis
    by (simp add: narrow_id) (simp add: maxMessageSize_def INT_MAX_def)
qed

text \<open>The first fragment of an array of 5 000 000 000 elements has exactly the largest count.\<close>

theorem count_fits_int_witness:
  "MPI_Allreduce MPI_IN_PLACE 0 2147483645
     \<in> set (sumToAll True \<lparr>pm_size = 4, pm_rank = 2\<rparr> (replicate 5000000000 (0::real)))
   \<and> narrow 2147483645 = 2147483645 \<and> narrow 2147483645 < int INT_MAX"
proof -
  have m: "MPI_Allreduce MPI_IN_PLACE 0 2147483645
     \<in> set (sumToAll True \<lparr>pm_size = 4, pm_rank = 2\<rparr> (replicate 5000000000 (0::real)))"
    by (simp add: sumToAll_def isMultiProc_def sumToAll_loop_step sumToAll_loop_last
          maxMessageSize_def INT_MAX_def)
  from count_fits_int [OF disjI1, OF m] m show ?thesis by simp
qed

text \<open>
  C10. The fragments (offsets and lengths) of the calls that \<^verbatim>\<open>sumToAll\<close> and \<^verbatim>\<open>sumToRoot\<close>
  issue depend on the length of the array only, not on its contents, its element type or the
  caller's rank: two processes of one build that are both in a multi-process group (or
  both alone) and supply arrays of equal length issue the same sequence of fragment lengths,
  and so do \<^verbatim>\<open>sumToRoot\<close> and \<^verbatim>\<open>sumToAll\<close>. In a multi-process group an empty array still
  issues exactly one call, with count 0.
\<close>

theorem fragment_lengths_deterministic:
  assumes "length arr1 = length arr2" and "isMultiProc pm1 = isMultiProc pm2"
  shows "map fragment (sumToAll mpi pm1 arr1) = map fragment (sumToAll mpi pm2 arr2)
       \<and> map fragment (sumToRoot mpi pm1 arr1) = map fragment (sumToRoot mpi pm2 arr2)
       \<and> map fragment (sumToRoot mpi pm1 arr1) = map fragment (sumToAll mpi pm2 arr2)
       \<and> map count (sumToAll mpi pm1 arr1) = map count (sumToAll mpi pm2 arr2)
       \<and> map count (sumToRoot mpi pm1 arr1) = map count (sumToRoot mpi pm2 arr2)
       \<and> (isMultiProc pm1 \<longrightarrow> map count (sumToAll True pm1 []) = [0]
                              \<and> map count (sumToRoot True pm1 []) = [0])"
proof -
  have c: "map count cs = map snd (map fragment cs)" for cs
    by (simp add: fragment_def comp_def)
  have a: "map fragment (sumToAll mpi pm1 arr1) = map fragment (sumToAll mpi pm2 arr2)"
    using assms by (simp add: sumToAll_def)
  have r: "map fragment (sumToRoot mpi pm1 arr1) = map fragment (sumToRoot mpi pm2 arr2)"
    using assms by (simp add: sumToRoot_def sumToRoot_loop_fragments)
  have ra: "map fragment (sumToRoot mpi pm1 arr1) = map fragment (sumToAll mpi pm2 arr2)"
    using assms by (simp add: sumToRoot_def sumToAll_def sumToRoot_loop_fragments)
  have z: "isMultiProc pm1 \<longrightarrow> map count (sumToAll True pm1 []) = [0]
                              \<and> map count (sumToRoot True pm1 []) = [0]"
    by (simp add: sumToAll_def sumToRoot_def sumToAll_loop_last sumToRoot_loop_last)
  from a r ra z show ?thesis by (simp only: c)
qed

text \<open>The root and rank 3 of a group of four, with arrays of different types and contents.\<close>

theorem fragment_lengths_deterministic_witness:
  "length (replicate 5000000000 (1::real)) = length (replicate 5000000000 (7::int))
   \<and> isMultiProc \<lparr>pm_size = 4, pm_rank = 0\<rparr> = isMultiProc \<lparr>pm_size = 4, pm_rank = 3\<rparr>
   \<and> map count (sumToRoot True \<lparr>pm_size = 4, pm_rank = 0\<rparr> (replicate 5000000000 (1::real)))
       = [2147483645, 2147483645, 705032710]
   \<and> map count (sumToRoot True \<lparr>pm_size = 4, pm_rank = 3\<rparr> (replicate 5000000000 (7::int)))
       = [2147483645, 2147483645, 705032710]
   \<and> map count (sumToAll True \<lparr>pm_size = 4, pm_rank = 0\<rparr> ([]::real list)) = [0]"
proof -
  have e: "map count (sumToRoot True \<lparr>pm_size = 4, pm_rank = 0\<rparr> (replicate 5000000000 (1::real)))
       = [2147483645, 2147483645, 705032710]"
    by (simp add: sumToRoot_def isMultiProc_def isRoot_def sumToRoot_loop_step sumToRoot_loop_last
          maxMessageSize_def INT_MAX_def)
  have m: "isMultiProc \<lparr>pm_size = 4, pm_rank = 0\<rparr>" by (simp add: isMultiProc_def)
  have l: "length (replicate 5000000000 (1::real)) = length (replicate 5000000000 (7::int))"
    by simp
  have s: "isMultiProc \<lparr>pm_size = 4, pm_rank = 0\<rparr> = isMultiProc \<lparr>pm_size = 4, pm_rank = 3\<rparr>"
    by (simp add: isMultiProc_def)
  note d = fragment_lengths_deterministic [OF l s, of True]
  from d have "map count (sumToRoot True \<lparr>pm_size = 4, pm_rank = 0\<rparr> (replicate 5000000000 (1::real)))
               = map count (sumToRoot True \<lparr>pm_size = 4, pm_rank = 3\<rparr> (replicate 5000000000 (7::int)))"
    by (elim conjE)
  with e have e': "map count (sumToRoot True \<lparr>pm_size = 4, pm_rank = 3\<rparr> (replicate 5000000000 (7::int)))
               = [2147483645, 2147483645, 705032710]"
    by (simp only:)
  from d m have z: "map count (sumToAll True \<lparr>pm_size = 4, pm_rank = 0\<rparr> ([]::real list)) = [0]"
    by blast
  from l s e e' z show ?thesis by (intro conjI)
qed

text \<open>
  C2. For an array longer than the transport's bound on the element count, in a
  multi-process group, the calls \<open>cs\<close> of \<^verbatim>\<open>sumToAll\<close> and of \<^verbatim>\<open>sumToRoot\<close> are one per
  fragment: every fragment is not empty, no longer than the bound and written back to the
  range it was read from; the fragments follow one another from offset 0 to the end of the
  array without gap, so their offsets strictly increase and each ends before the next
  begins; every index of the array lies in exactly one fragment; the fragments' slices, put
  together in call order, are the array; and the number of calls is the length divided by
  the bound, rounded up.
\<close>

theorem fragments_partition_buffer:
  assumes multi: "isMultiProc pm" and big: "length arr > maxMessageSize"
    and cs: "cs = sumToAll True pm arr \<or> cs = sumToRoot True pm arr"
  shows "(\<forall>c \<in> set cs. 0 < count c \<and> count c \<le> maxMessageSize \<and> send_offset c = recvbuf c)
       \<and> tiles 0 (map fragment cs) (length arr)
       \<and> sorted_wrt (<) (map recvbuf cs)
       \<and> sorted_wrt (\<lambda>c c'. recvbuf c + count c \<le> recvbuf c') cs
       \<and> (\<forall>i < length arr.
             length (filter (\<lambda>c. recvbuf c \<le> i \<and> i < recvbuf c + count c) cs) = 1)
       \<and> concat (map (\<lambda>c. take (count c) (drop (recvbuf c) arr)) cs) = arr
       \<and> length cs = (length arr + maxMessageSize - 1) div maxMessageSize"
proof -
  let ?n = "length arr"
  let ?fs = "map fragment cs"
  from big have pos: "0 < ?n" by (cases arr) simp_all
  have fs: "?fs = map fragment (sumToAll_loop 0 ?n)"
    using multi cs by (rule fragments_of_calls)
  have t: "tiles 0 ?fs ?n"
    using sumToAll_loop_tiles [of 0 ?n] by (simp add: fs)
  have cnt: "0 < snd p \<and> snd p \<le> maxMessageSize" if "p \<in> set ?fs" for p
  proof -
    from that fs obtain c' where c': "c' \<in> set (sumToAll_loop 0 ?n)" and p: "p = fragment c'"
      by auto
    from sumToAll_loop_count_pos [OF pos c'] sumToAll_loop_count_le [OF c'] p
    show ?thesis by (simp add: fragment_def)
  qed
  have fpos: "\<forall>p \<in> set ?fs. 0 < snd p" using cnt by blast
  have inpl: "send_offset c = recvbuf c" if "c \<in> set cs" for c
    using that cs multi
    by (auto simp: sumToAll_def sumToRoot_def
             dest: sumToAll_loop_in_place sumToRoot_loop_in_place)
  have 1: "\<forall>c \<in> set cs. 0 < count c \<and> count c \<le> maxMessageSize \<and> send_offset c = recvbuf c"
  proof
    fix c assume c: "c \<in> set cs"
    then have "fragment c \<in> set ?fs" by simp
    from cnt [OF this] inpl [OF c]
    show "0 < count c \<and> count c \<le> maxMessageSize \<and> send_offset c = recvbuf c"
      by (simp add: fragment_def)
  qed
  have "sorted_wrt (<) (map fst ?fs)"
    using tiles_sorted [OF t fpos] by simp
  then have 3: "sorted_wrt (<) (map recvbuf cs)"
    by (simp add: fragment_def comp_def)
  have "sorted_wrt (\<lambda>p q. fst p + snd p \<le> fst q) ?fs"
    using t by (rule tiles_ordered)
  then have 4: "sorted_wrt (\<lambda>c c'. recvbuf c + count c \<le> recvbuf c') cs"
    by (simp add: sorted_wrt_map fragment_def)
  have 5: "\<forall>i < ?n. length (filter (\<lambda>c. recvbuf c \<le> i \<and> i < recvbuf c + count c) cs) = 1"
  proof (intro allI impI)
    fix i assume i: "i < ?n"
    have "length (filter (\<lambda>p. fst p \<le> i \<and> i < fst p + snd p) ?fs) = 1"
      using t fpos _ i by (rule tiles_once) simp
    then show "length (filter (\<lambda>c. recvbuf c \<le> i \<and> i < recvbuf c + count c) cs) = 1"
      by (simp add: filter_map comp_def fragment_def)
  qed
  have "concat (map (\<lambda>(off, n). take n (drop off arr)) ?fs) = take (?n - 0) (drop 0 arr)"
    using t by (rule tiles_concat_slices)
  then have 6: "concat (map (\<lambda>c. take (count c) (drop (recvbuf c) arr)) cs) = arr"
    by (simp add: comp_def fragment_def)
  have "length cs = length ?fs" by simp
  also have "\<dots> = length (sumToAll_loop 0 ?n)" by (simp only: fs length_map)
  also have "\<dots> = (?n + maxMessageSize - 1) div maxMessageSize"
    using pos by (rule sumToAll_loop_length)
  finally have 7: "length cs = (?n + maxMessageSize - 1) div maxMessageSize" .
  from 1 t 3 4 5 6 7 show ?thesis by (intro conjI)
qed

text \<open>Rank 3 of four reducing 5 000 000 000 elements to the root: three fragments.\<close>

theorem fragments_partition_buffer_witness:
  "isMultiProc \<lparr>pm_size = 4, pm_rank = 3\<rparr>
   \<and> length (replicate 5000000000 (1::real)) > maxMessageSize
   \<and> sumToRoot True \<lparr>pm_size = 4, pm_rank = 3\<rparr> (replicate 5000000000 (1::real))
       = [MPI_Reduce (SendAt 0) 0 2147483645 0,
          MPI_Reduce (SendAt 2147483645) 2147483645 2147483645 0,
          MPI_Reduce (SendAt 4294967290) 4294967290 705032710 0]
   \<and> concat (map (\<lambda>c. take (count c) (drop (recvbuf c) (replicate 5000000000 (1::real))))
         (sumToRoot True \<lparr>pm_size = 4, pm_rank = 3\<rparr> (replicate 5000000000 (1::real))))
       = replicate 5000000000 1
   \<and> length (sumToRoot True \<lparr>pm_size = 4, pm_rank = 3\<rparr> (replicate 5000000000 (1::real)))
       = (5000000000 + maxMessageSize - 1) div maxMessageSize"
proof -
  let ?pm = "\<lparr>pm_size = 4, pm_rank = 3\<rparr>"
  let ?arr = "replicate 5000000000 (1::real)"
  have m: "isMultiProc ?pm" by (simp add: isMultiProc_def)
  have b: "length ?arr > maxMessageSize" by (simp add: maxMessageSize_def INT_MAX_def)
  have e: "sumToRoot True ?pm ?arr
       = [MPI_Reduce (SendAt 0) 0 2147483645 0,
          MPI_Reduce (SendAt 2147483645) 2147483645 2147483645 0,
          MPI_Reduce (SendAt 4294967290) 4294967290 705032710 0]"
    by (simp add: sumToRoot_def isMultiProc_def isRoot_def sumToRoot_loop_step sumToRoot_loop_last
          maxMessageSize_def INT_MAX_def)
  note p = fragments_partition_buffer [OF m b disjI2, OF refl]
  from p have c: "concat (map (\<lambda>c. take (count c) (drop (recvbuf c) ?arr)) (sumToRoot True ?pm ?arr)) = ?arr"
    by (elim conjE)
  from p have l: "length (sumToRoot True ?pm ?arr) = (length ?arr + maxMessageSize - 1) div maxMessageSize"
    by (elim conjE)
  then have l': "length (sumToRoot True ?pm ?arr) = (5000000000 + maxMessageSize - 1) div maxMessageSize"
    by (simp only: length_replicate)
  from m b e c l' show ?thesis by (intro conjI)
qed

text \<open>
  C3. When the \<open>P \<ge> 1\<close> participants of a group call \<^verbatim>\<open>sumToAll\<close> with arrays of the same
  length \<open>L\<close> and the transport sums, the group operation completes, and afterwards every
  participant's array has length \<open>L\<close> and holds at each index the sum of all participants'
  original values at that index. Values are summed exactly (any additive monoid); the
  rounding of floating-point addition is not modelled.
\<close>

theorem sumToAll_elementwise_sum:
  fixes bufs :: "'a::monoid_add list list"
  assumes P: "1 \<le> length bufs" and len: "\<forall>b \<in> set bufs. length b = L"
    and sum: "red tr = MPI_SUM"
  shows "\<exists>res. sumToAll_group tr bufs = Some res \<and> length res = length bufs
           \<and> (\<forall>r < length bufs. length (res ! r) = L
                 \<and> (\<forall>i < L. res ! r ! i = sum_list (map (\<lambda>b. b ! i) bufs)))"
proof (cases "2 \<le> length bufs")
  case True
  let ?res = "allreduce_at tr 0 L bufs"
  have "sumToAll_group tr bufs = Some ?res"
    using True len by (rule sumToAll_group_multi)
  moreover have "length ?res = length bufs" by simp
  moreover have "\<forall>r < length bufs. length (?res ! r) = L
                 \<and> (\<forall>i < L. ?res ! r ! i = sum_list (map (\<lambda>b. b ! i) bufs))"
  proof (intro allI impI conjI)
    fix r assume r: "r < length bufs"
    with len have lr: "length (bufs ! r) = L" by simp
    with r show "length (?res ! r) = L" by simp
    fix i assume "i < L"
    with r lr show "?res ! r ! i = sum_list (map (\<lambda>b. b ! i) bufs)"
      by (simp add: allreduce_at_nth sum MPI_SUM_def column_def)
  qed
  ultimately show ?thesis by blast
next
  case False
  with P obtain b where b: "bufs = [b]"
    by (cases bufs) (auto simp: Suc_le_eq)
  have "sumToAll_group tr bufs = Some bufs"
    unfolding b by (rule sumToAll_group_single)
  with b len show ?thesis by simp
qed

text \<open>Three participants with four ones each: every participant ends with four threes.\<close>

theorem sumToAll_elementwise_sum_witness:
  "\<exists>res. sumToAll_group \<lparr>red = MPI_SUM, nonroot = (\<lambda>r i v. v)\<rparr>
            [[1, 1, 1, 1], [1, 1, 1, 1], [1, 1, 1, 1::real]] = Some res
         \<and> res ! 0 = [3, 3, 3, 3] \<and> res ! 1 = [3, 3, 3, 3] \<and> res ! 2 = [3, 3, 3, 3]"
proof -
  let ?tr = "\<lparr>red = MPI_SUM, nonroot = (\<lambda>r i v. v)\<rparr> :: real transport"
  let ?bufs = "[[1, 1, 1, 1], [1, 1, 1, 1], [1, 1, 1, 1::real]]"
  have P: "1 \<le> length ?bufs" by simp
  have len: "\<forall>b \<in> set ?bufs. length b = 4" by simp
  have sum: "red ?tr = MPI_SUM" by simp
  from sumToAll_elementwise_sum [OF P len sum]
  obtain res where res: "sumToAll_group ?tr ?bufs = Some res"
    and el: "\<forall>r < length ?bufs. length (res ! r) = 4
                 \<and> (\<forall>i < 4. res ! r ! i = sum_list (map (\<lambda>b. b ! i) ?bufs))"
    by blast
  have row: "res ! r = [3, 3, 3, 3]" if "r < 3" for r
  proof (rule nth_equalityI)
    from el that show "length (res ! r) = length [3, 3, 3, 3::real]" by simp
  next
    fix i assume "i < length (res ! r)"
    with el that have i: "i < 4" by simp
    with el that have "res ! r ! i = sum_list (map (\<lambda>b. b ! i) ?bufs)" by simp
    also have "\<dots> = [3, 3, 3, 3] ! i"
    proof -
      from i consider "i = 0" | "i = 1" | "i = 2" | "i = 3" by linarith
      then show ?thesis by cases simp_all
    qed
    finally show "res ! r ! i = [3, 3, 3, 3] ! i" .
  qed
  from res row [of 0] row [of 1] row [of 2] show ?thesis by simp
qed

text \<open>
  C4. When the \<open>P \<ge> 1\<close> participants of a group call \<^verbatim>\<open>sumToRoot\<close> with arrays of the same
  length \<open>L\<close> and the transport sums, the group operation completes, and afterwards the
  array of rank 0 holds at each index the sum of all participants' original values at that
  index, whatever the transport leaves in the other participants' arrays: those keep their
  length and hold at each index what the transport put there, which nothing constrains.
\<close>

theorem sumToRoot_root_sum:
  fixes bufs :: "'a::monoid_add list list"
  assumes P: "1 \<le> length bufs" and len: "\<forall>b \<in> set bufs. length b = L"
    and sum: "red tr = MPI_SUM"
  shows "\<exists>res. sumToRoot_group tr bufs = Some res \<and> length res = length bufs
           \<and> length (res ! 0) = L
           \<and> (\<forall>i < L. res ! 0 ! i = sum_list (map (\<lambda>b. b ! i) bufs))
           \<and> (\<forall>r. 0 < r \<and> r < length bufs \<longrightarrow> length (res ! r) = L
                 \<and> (\<forall>i < L. res ! r ! i = nonroot tr r i (bufs ! r ! i)))"
proof (cases "2 \<le> length bufs")
  case True
  let ?res = "reduce_at tr 0 L bufs"
  from True have z: "0 < length bufs" by (cases bufs) simp_all
  have "sumToRoot_group tr bufs = Some ?res"
    using True len by (rule sumToRoot_group_multi)
  moreover have "length ?res = length bufs" by simp
  moreover from z len have l0: "length (bufs ! 0) = L" by simp
  with z have "length (?res ! 0) = L" by simp
  moreover have "\<forall>i < L. ?res ! 0 ! i = sum_list (map (\<lambda>b. b ! i) bufs)"
    using z l0 by (simp add: reduce_at_nth sum MPI_SUM_def column_def)
  moreover have "\<forall>r. 0 < r \<and> r < length bufs \<longrightarrow> length (?res ! r) = L
                 \<and> (\<forall>i < L. ?res ! r ! i = nonroot tr r i (bufs ! r ! i))"
  proof (intro allI impI conjI)
    fix r assume r: "0 < r \<and> r < length bufs"
    with len have lr: "length (bufs ! r) = L" by simp
    with r show "length (?res ! r) = L" by simp
    fix i assume "i < L"
    with r lr show "?res ! r ! i = nonroot tr r i (bufs ! r ! i)"
      by (simp add: reduce_at_nth)
  qed
  ultimately show ?thesis by blast
next
  case False
  with P obtain b where b: "bufs = [b]"
    by (cases bufs) (auto simp: Suc_le_eq)
  have "sumToRoot_group tr bufs = Some bufs"
    unfolding b by (rule sumToRoot_group_single)
  with b len show ?thesis by simp
qed

text \<open>
  Three participants with two ones each, on a transport that zeroes the receive range of
  the other ranks: the root holds two threes.
\<close>

theorem sumToRoot_root_sum_witness:
  "\<exists>res. sumToRoot_group \<lparr>red = MPI_SUM, nonroot = (\<lambda>r i v. 0)\<rparr>
            [[1, 1], [1, 1], [1, 1::real]] = Some res
         \<and> res ! 0 = [3, 3] \<and> res ! 1 ! 0 = 0 \<and> res ! 2 ! 1 = 0"
proof -
  let ?tr = "\<lparr>red = MPI_SUM, nonroot = (\<lambda>r i v. 0)\<rparr> :: real transport"
  let ?bufs = "[[1, 1], [1, 1], [1, 1::real]]"
  have P: "1 \<le> length ?bufs" by simp
  have len: "\<forall>b \<in> set ?bufs. length b = 2" by simp
  have sum: "red ?tr = MPI_SUM" by simp
  from sumToRoot_root_sum [OF P len sum]
  obtain res where res: "sumToRoot_group ?tr ?bufs = Some res"
    and l0: "length (res ! 0) = 2"
    and el: "\<forall>i < 2. res ! 0 ! i = sum_list (map (\<lambda>b. b ! i) ?bufs)"
    and nr: "\<forall>r. 0 < r \<and> r < length ?bufs \<longrightarrow> length (res ! r) = 2
                 \<and> (\<forall>i < 2. res ! r ! i = nonroot ?tr r i (?bufs ! r ! i))"
    by blast
  have row: "res ! 0 = [3, 3]"
  proof (rule nth_equalityI)
    from l0 show "length (res ! 0) = length [3, 3::real]" by simp
  next
    fix i assume "i < length (res ! 0)"
    with l0 have i: "i < 2" by simp
    with el have "res ! 0 ! i = sum_list (map (\<lambda>b. b ! i) ?bufs)" by simp
    also have "\<dots> = [3, 3] ! i"
    proof -
      from i consider "i = 0" | "i = 1" by linarith
      then show ?thesis by cases simp_all
    qed
    finally show "res ! 0 ! i = [3, 3] ! i" .
  qed
  from nr have "res ! 1 ! 0 = 0" and "res ! 2 ! 1 = 0" by simp_all
  with res row show ?thesis by simp
qed

text \<open>
  C5. For any transport that reduces element by element (whatever its reduction of a column
  is, exact or rounded, as long as it is the same function for every call), the result of
  \<^verbatim>\<open>sumToAll\<close> and of \<^verbatim>\<open>sumToRoot\<close> on a group with arrays of equal length \<open>L\<close> is exactly the
  result of one collective call on the whole range \<open>0, \<dots>, L - 1\<close> with no bound on its
  count: the number of fragments does not show in the result. (A process alone issues no call
  at all; that is the same as one call when reducing a single value gives that value.)
\<close>

theorem fragmentation_equals_single_call:
  assumes len: "\<forall>b \<in> set bufs. length b = L"
    and P: "2 \<le> length bufs \<or> (length bufs = 1 \<and> (\<forall>x. red tr [x] = x))"
  shows "sumToAll_group tr bufs = Some (allreduce_at tr 0 L bufs)
       \<and> sumToRoot_group tr bufs = Some (reduce_at tr 0 L bufs)"
proof (cases "2 \<le> length bufs")
  case True
  then show ?thesis
    using len by (simp add: sumToAll_group_multi sumToRoot_group_multi)
next
  case False
  with P have one: "length bufs = 1" and idem: "\<forall>x. red tr [x] = x" by simp_all
  from one obtain b where b: "bufs = [b]"
    by (cases bufs) simp_all
  from idem have "allreduce_at tr 0 L [b] = [b]" and "reduce_at tr 0 L [b] = [b]"
    by (rule allreduce_at_single, rule reduce_at_single)
  then show ?thesis
    by (simp add: b sumToAll_group_single sumToRoot_group_single)
qed

text \<open>Three participants, two elements each, with a transport that leaves the other ranks alone.\<close>

theorem fragmentation_equals_single_call_witness:
  "sumToAll_group \<lparr>red = MPI_SUM, nonroot = (\<lambda>r i v. v)\<rparr> [[1, 2], [3, 4], [5, 6::real]]
     = Some [[9, 12], [9, 12], [9, 12]]
   \<and> sumToRoot_group \<lparr>red = MPI_SUM, nonroot = (\<lambda>r i v. v)\<rparr> [[1, 2], [3, 4], [5, 6::real]]
     = Some [[9, 12], [3, 4], [5, 6]]"
proof -
  let ?tr = "\<lparr>red = MPI_SUM, nonroot = (\<lambda>r i v. v)\<rparr> :: real transport"
  let ?bufs = "[[1, 2], [3, 4], [5, 6::real]]"
  have len: "\<forall>b \<in> set ?bufs. length b = 2" by simp
  have P: "2 \<le> length ?bufs \<or> (length ?bufs = 1 \<and> (\<forall>x. red ?tr [x] = x))" by simp
  have a: "allreduce_at ?tr 0 2 ?bufs = [[9, 12], [9, 12], [9, 12]]"
    by (simp add: allreduce_at_def column_def MPI_SUM_def upt_rec)
  have r: "reduce_at ?tr 0 2 ?bufs = [[9, 12], [3, 4], [5, 6]]"
    by (simp add: reduce_at_def column_def MPI_SUM_def upt_rec)
  from fragmentation_equals_single_call [OF len P] a r show ?thesis by simp
qed

text \<open>
  C8. A process whose group has exactly one participant issues no transport call in
  \<^verbatim>\<open>sumToAll\<close>, in either build, and the group operation on a group of one leaves the array
  as it was: same length, same elements.
\<close>

theorem sumToAll_single_process_unchanged:
  assumes "pm_size pm = 1"
  shows "sumToAll mpi pm arr = [] \<and> sumToAll_group tr [arr] = Some [arr]"
  using assms by (simp add: sumToAll_def isMultiProc_def sumToAll_group_single)

text \<open>The statically initialised process manager has size 1.\<close>

theorem sumToAll_single_process_unchanged_witness:
  "pm_size pm_default = 1
   \<and> sumToAll True pm_default [1.5, 2, 3::real] = []
   \<and> sumToAll_group \<lparr>red = MPI_SUM, nonroot = (\<lambda>r i v. v)\<rparr> [[1.5, 2, 3::real]] = Some [[1.5, 2, 3]]"
proof -
  have s: "pm_size pm_default = 1" by (simp add: pm_default_def)
  from sumToAll_single_process_unchanged [OF s] s show ?thesis by simp
qed

text \<open>
  A call that finds MPI initialised already, or a build without MPI, checks nothing and
  changes nothing: initialisation happens once, and a repeated call is a no-op.
\<close>

lemma initialize_noop:
  "\<not> mpi \<or> mpi_initialized env \<Longrightarrow> initialize mpi env pm = (env, Inr pm)"
  by (auto simp: initialize_def)

text \<open>
  C7. When the process group is initialised (the program is built with MPI and MPI has not
  been initialised yet), \<^verbatim>\<open>initialize\<close> fails with the fatal error if and only if the thread
  support that the transport provides is below \<^verbatim>\<open>MPI_THREAD_FUNNELED\<close>, that is, the transport
  cannot guarantee that collective calls come from one controlling thread per process. When
  it fails, the error is the fatal error about funneled threads and neither size nor rank
  has been set; otherwise it sets the participant count and the rank from the world
  communicator and returns normally.
\<close>

theorem initialize_fatal_iff:
  assumes "mpi" and "\<not> mpi_initialized env"
  shows "((\<exists>e. snd (initialize mpi env pm) = Inl e)
            \<longleftrightarrow> mpi_provided env < MPI_THREAD_FUNNELED)
       \<and> (mpi_provided env < MPI_THREAD_FUNNELED \<longrightarrow>
            snd (initialize mpi env pm)
              = Inl (FatalError ''MPI implementation does not support funneled threads''))
       \<and> (\<not> mpi_provided env < MPI_THREAD_FUNNELED \<longrightarrow>
            initialize mpi env pm
              = (env\<lparr>mpi_initialized := True\<rparr>,
                 Inr (pm\<lparr>pm_size := comm_size env, pm_rank := comm_rank env\<rparr>)))"
  using assms by (auto simp: initialize_def Let_def)

text \<open>
  A first call on a library that provides \<^verbatim>\<open>MPI_THREAD_SINGLE\<close> only, which is fatal, and one
  on a library that provides \<^verbatim>\<open>MPI_THREAD_FUNNELED\<close>, as rank 2 of four.
\<close>

theorem initialize_fatal_iff_witness:
  "snd (initialize True
          \<lparr>mpi_initialized = False, mpi_provided = MPI_THREAD_SINGLE, comm_size = 4, comm_rank = 2\<rparr>
          pm_default)
     = Inl (FatalError ''MPI implementation does not support funneled threads'')
   \<and> initialize True
          \<lparr>mpi_initialized = False, mpi_provided = MPI_THREAD_FUNNELED, comm_size = 4, comm_rank = 2\<rparr>
          pm_default
     = (\<lparr>mpi_initialized = True, mpi_provided = MPI_THREAD_FUNNELED, comm_size = 4, comm_rank = 2\<rparr>,
        Inr \<lparr>pm_size = 4, pm_rank = 2\<rparr>)"
proof -
  let ?env0 = "\<lparr>mpi_initialized = False, mpi_provided = MPI_THREAD_SINGLE,
                 comm_size = 4, comm_rank = 2\<rparr>"
  let ?env1 = "\<lparr>mpi_initialized = False, mpi_provided = MPI_THREAD_FUNNELED,
                 comm_size = 4, comm_rank = 2\<rparr>"
  have n0: "\<not> mpi_initialized ?env0" and n1: "\<not> mpi_initialized ?env1" by simp_all
  note i0 = initialize_fatal_iff [OF TrueI n0, of pm_default]
  note i1 = initialize_fatal_iff [OF TrueI n1, of pm_default]
  have "mpi_provided ?env0 < MPI_THREAD_FUNNELED"
    by (simp add: MPI_THREAD_SINGLE_def MPI_THREAD_FUNNELED_def)
  with i0 have a: "snd (initialize True ?env0 pm_default)
     = Inl (FatalError ''MPI implementation does not support funneled threads'')"
    by blast
  have "\<not> mpi_provided ?env1 < MPI_THREAD_FUNNELED" by simp
  with i1 have "initialize True ?env1 pm_default
     = (?env1\<lparr>mpi_initialized := True\<rparr>,
        Inr (pm_default\<lparr>pm_size := comm_size ?env1, pm_rank := comm_rank ?env1\<rparr>))"
    by blast
  then have b: "initialize True ?env1 pm_default
     = (\<lparr>mpi_initialized = True, mpi_provided = MPI_THREAD_FUNNELED, comm_size = 4, comm_rank = 2\<rparr>,
        Inr \<lparr>pm_size = 4, pm_rank = 2\<rparr>)"
    by (simp add: pm_default_def)
  from a b show ?thesis by (intro conjI)
qed

section \<open>The claims about the work distribution\<close>





end
